theory Spec2Isabelle
  imports Main "HOL-Library.Log_Nat"
begin

section \<open>Texts and the ECMAScript string primitives used by the detector\<close>

text \<open>
  A JavaScript string is a sequence of UTF-16 code units and \<open>length\<close> counts code units.
  Texts are modelled as \<^typ>\<open>string\<close>: a list of \<^typ>\<open>char\<close>, each standing for one code
  unit in the range U+0000 .. U+00FF. In that range \<open>toLowerCase\<close> acts on every code unit
  separately, and the characters matched by \<open>\s\<close> and stripped by \<open>trim\<close> are
  TAB, LF, VT, FF, CR, SPACE and NO-BREAK SPACE.
\<close>

definition isWhiteSpace :: "char \<Rightarrow> bool" where
  "isWhiteSpace c = (of_char c \<in> {9, 10, 11, 12, 13, 32, 160 :: nat})"

definition isDelimiter :: "char \<Rightarrow> bool" where
  \<comment> \<open>the character class \<open>[.!?]\<close>\<close>
  "isDelimiter c = (c = CHR ''.'' \<or> c = CHR ''!'' \<or> c = CHR ''?'')"

definition isAsciiLetter :: "char \<Rightarrow> bool" where
  \<comment> \<open>the character class \<open>[a-zA-Z]\<close>\<close>
  "isAsciiLetter c =
     (let n = of_char c :: nat in (97 \<le> n \<and> n \<le> 122) \<or> (65 \<le> n \<and> n \<le> 90))"

definition toLowerChar :: "char \<Rightarrow> char" where
  \<comment> \<open>A-Z and the upper-case letters of U+00C0 .. U+00DE (all but the multiplication sign
      U+00D7) have their lower-case form 32 positions up; every other code unit is kept.\<close>
  "toLowerChar c =
     (let n = of_char c :: nat
      in if (65 \<le> n \<and> n \<le> 90) \<or> (192 \<le> n \<and> n \<le> 222 \<and> n \<noteq> 215)
         then char_of (n + 32) else c)"

definition toLowerCase :: "string \<Rightarrow> string" where
  "toLowerCase s = map toLowerChar s"

definition trim :: "string \<Rightarrow> string" where
  "trim s = rev (dropWhile isWhiteSpace (rev (dropWhile isWhiteSpace s)))"

text \<open>
  \<open>s.split(/[...]+/)\<close> for a separator that is one or more characters of a class: the
  ECMAScript loop looks for the first position \<open>q\<close> at or after the start \<open>p\<close> of the
  current piece where the separator matches, emits \<open>s[p..q)\<close>, and continues behind the
  (greedy, hence maximal) match. When no match is left it emits the rest, so the result is
  never empty and \<open>''''.split(...)\<close> is the one-element list of the empty string.
\<close>

function split_runs :: "(char \<Rightarrow> bool) \<Rightarrow> string \<Rightarrow> string list" where
  "split_runs sep s =
     (let piece = takeWhile (\<lambda>c. \<not> sep c) s;
          rest = dropWhile (\<lambda>c. \<not> sep c) s
      in if rest = [] then [piece]
         else piece # split_runs sep (dropWhile sep rest))"
  by pat_completeness auto
termination
proof (relation "measure (\<lambda>(sep, s). length s)")
  show "wf (measure (\<lambda>(sep, s). length s))" by simp
next
  fix sep :: "char \<Rightarrow> bool" and s piece rest :: string
  assume r: "rest = dropWhile (\<lambda>c. \<not> sep c) s" and ne: "rest \<noteq> []"
  from ne obtain c cs where cs: "rest = c # cs" by (cases rest) auto
  have ne': "dropWhile (\<lambda>c. \<not> sep c) s \<noteq> []" using ne unfolding r .
  from hd_dropWhile [OF ne'] have "sep (hd rest)" unfolding r by blast
  then have "sep c" unfolding cs by simp
  then have "length (dropWhile sep rest) \<le> length cs"
    by (simp add: cs length_dropWhile_le)
  also have "\<dots> < length rest" by (simp add: cs)
  also have "\<dots> \<le> length s" by (simp add: r length_dropWhile_le)
  finally show "((sep, dropWhile sep rest), (sep, s)) \<in> measure (\<lambda>(sep, s). length s)"
    by simp
qed

declare split_runs.simps [simp del]

section \<open>Numbers: IEEE 754 double arithmetic\<close>

text \<open>
  A JavaScript number is an IEEE 754 double. The detector divides one array or set size
  by another, multiplies the quotient by 100 and calls \<open>Math.round\<close>. A finite double is
  modelled by the rational it denotes, and an arithmetic operation returns the exact
  result rounded to 53 significant bits, to nearest, ties to even (\<open>fl\<close>). Sizes are
  integers below \<open>2^53\<close> and convert to doubles exactly. The exponent range is not
  modelled: with sizes below \<open>2^32\<close> the quotients lie between \<open>2^-32\<close> and 1 and the
  products below 100, far from overflow and from the subnormal numbers. Every division
  of the detector stands behind the test that both word lists are non-empty, which makes
  the divisor positive, so NaN and the infinities do not arise.
\<close>

definition binade :: "rat \<Rightarrow> int" where
  \<comment> \<open>for \<open>0 < x\<close> the exponent \<open>e\<close> with \<open>2^e \<le> x < 2^(e+1)\<close>: the difference of the bit
      lengths of numerator and denominator, or one less\<close>
  "binade x =
     (let (p, q) = quotient_of x;
          e = bitlen p - bitlen q
      in if 2 powi e \<le> x then e else e - 1)"

definition round_half_even :: "rat \<Rightarrow> int" where
  "round_half_even x =
     (let k = \<lfloor>x\<rfloor>; f = x - of_int k
      in if f < 1 / 2 then k else if 1 / 2 < f then k + 1 else if even k then k else k + 1)"

definition fl :: "rat \<Rightarrow> rat" where
  \<comment> \<open>the double nearest to \<open>x\<close>: a multiple of \<open>ulp = 2^(e - 52)\<close> in the binade \<open>e\<close> of \<open>x\<close>\<close>
  "fl x =
     (if x = 0 then 0
      else let ulp = 2 powi (binade \<bar>x\<bar> - 52)
           in sgn x * of_int (round_half_even (\<bar>x\<bar> / ulp)) * ulp)"

definition js_div :: "rat \<Rightarrow> rat \<Rightarrow> rat" where
  "js_div x y = fl (x / y)"

definition js_mul :: "rat \<Rightarrow> rat \<Rightarrow> rat" where
  "js_mul x y = fl (x * y)"

definition Math_round :: "rat \<Rightarrow> int" where
  \<comment> \<open>the integer nearest to \<open>x\<close>, the larger one when two are equally near\<close>
  "Math_round x = \<lfloor>x + 1 / 2\<rfloor>"

section \<open>Arrays: the stable sort\<close>

text \<open>
  \<open>Array.prototype.sort\<close> is stable: for a consistent comparator the result is the sorted
  permutation in which elements that compare equal keep their order. Inserting the
  elements from the right, each before the first element it does not have to follow,
  computes that permutation.
\<close>

fun insert_sorted :: "('a \<Rightarrow> 'a \<Rightarrow> int) \<Rightarrow> 'a \<Rightarrow> 'a list \<Rightarrow> 'a list" where
  "insert_sorted cmp x [] = [x]"
| "insert_sorted cmp x (y # ys) =
     (if cmp x y \<le> 0 then x # y # ys else y # insert_sorted cmp x ys)"

definition sort_with :: "('a \<Rightarrow> 'a \<Rightarrow> int) \<Rightarrow> 'a list \<Rightarrow> 'a list" where
  "sort_with cmp xs = foldr (insert_sorted cmp) xs []"

section \<open>The detector (class PlagiarismDetector)\<close>

record MatchedSentence =
  sentence :: string
  similarity :: int
  sourceFile :: string

record DetectionResult =
  id' :: string
  fileName :: string
  fileType :: string
  content :: string
  similarity :: int
  matches :: "MatchedSentence list"
  timestamp :: nat
  wordCount :: nat
  pageCount :: "nat option"

definition MIN_SENTENCE_LENGTH :: nat where "MIN_SENTENCE_LENGTH = 15"
definition MIN_WORD_LENGTH :: nat where "MIN_WORD_LENGTH = 3"
definition SIMILARITY_THRESHOLD :: int where "SIMILARITY_THRESHOLD = 75"

definition stopWords :: "string list" where
  "stopWords =
    [''the'', ''a'', ''an'', ''and'', ''or'', ''but'', ''in'', ''on'', ''at'', ''to'', ''for'',
     ''of'', ''with'', ''by'', ''is'', ''are'', ''was'', ''were'', ''be'', ''been'', ''being'',
     ''have'', ''has'', ''had'', ''do'', ''does'', ''did'', ''will'', ''would'', ''could'',
     ''should'', ''may'', ''might'', ''can'', ''this'', ''that'', ''these'', ''those'']"

definition isStopWord :: "string \<Rightarrow> bool" where
  "isStopWord word = (word \<in> set stopWords)"

definition test_alpha :: "string \<Rightarrow> bool" where
  \<comment> \<open>\<open>/^[a-zA-Z]+$/.test(word)\<close>\<close>
  "test_alpha word = (word \<noteq> [] \<and> list_all isAsciiLetter word)"

definition getSignificantWords :: "string \<Rightarrow> string list" where
  "getSignificantWords text =
     filter (\<lambda>word. MIN_WORD_LENGTH \<le> length word \<and> \<not> isStopWord word \<and> test_alpha word)
       (split_runs isWhiteSpace (toLowerCase text))"

definition extractSentences :: "string \<Rightarrow> string list" where
  "extractSentences text =
     filter (\<lambda>s. MIN_SENTENCE_LENGTH \<le> length s) (map trim (split_runs isDelimiter text))"

definition getWordCount :: "string \<Rightarrow> nat" where
  "getWordCount text = length (filter (\<lambda>word. 0 < length word) (split_runs isWhiteSpace text))"

definition calculateSimilarity :: "string \<Rightarrow> string \<Rightarrow> int" where
  "calculateSimilarity text1 text2 =
     (let words1 = getSignificantWords text1;
          words2 = getSignificantWords text2
      in if length words1 = 0 \<or> length words2 = 0 then 0
         else let set1 = set words1;
                  set2 = set words2;
                  intersection = Set.filter (\<lambda>x. x \<in> set2) set1;
                  union = set1 \<union> set2
              in Math_round
                   (js_mul (js_div (of_nat (card intersection)) (of_nat (card union))) 100))"

definition calculateSentenceSimilarity :: "string \<Rightarrow> string \<Rightarrow> int" where
  "calculateSentenceSimilarity sentence1 sentence2 =
     (let words1 = getSignificantWords sentence1;
          words2 = getSignificantWords sentence2
      in if length words1 = 0 \<or> length words2 = 0 then 0
         else let commonWords = filter (\<lambda>word. word \<in> set words2) words1
              in Math_round
                   (js_mul (js_div (of_nat (length commonWords))
                              (of_nat (max (length words1) (length words2)))) 100))"

definition compare_similarity :: "MatchedSentence \<Rightarrow> MatchedSentence \<Rightarrow> int" where
  \<comment> \<open>the comparator \<open>(a, b) => b.similarity - a.similarity\<close>\<close>
  "compare_similarity a b = MatchedSentence.similarity b - MatchedSentence.similarity a"

text \<open>
  The three nested \<open>forEach\<close> loops of \<open>findDetailedMatches\<close> push onto the array
  \<open>matches\<close>; each loop is a fold that passes the array on.
\<close>

definition collect_matches :: "string \<Rightarrow> DetectionResult list \<Rightarrow> MatchedSentence list" where
  "collect_matches text existingResults =
     (let sentences = extractSentences text
      in fold (\<lambda>result acc.
           let existingSentences = extractSentences (content result)
           in fold (\<lambda>sent acc.
                fold (\<lambda>existingSentence acc.
                  let sim = calculateSentenceSimilarity sent existingSentence
                  in if SIMILARITY_THRESHOLD \<le> sim
                     then acc @
                       [\<lparr>sentence = take 200 sent @ (if 200 < length sent then ''...'' else []),
                         similarity = sim,
                         sourceFile = fileName result\<rparr>]
                     else acc)
                  existingSentences acc)
                sentences acc)
           existingResults [])"

definition findDetailedMatches :: "string \<Rightarrow> DetectionResult list \<Rightarrow> MatchedSentence list" where
  "findDetailedMatches text existingResults =
     take 5 (sort_with compare_similarity (collect_matches text existingResults))"

section \<open>The caller (handleFileUpload of App.tsx)\<close>

text \<open>
  The handler reads the file through the extraction layer, which is no part of the
  detector: what the extractor yields for the file (an error message, or the text with
  an optional page count) is a parameter, and so are the values of the clock
  (\<open>Date.now().toString()\<close> and \<open>new Date()\<close>). The handler ends with an error message
  (\<open>setError\<close>) or with the new list of results (\<open>setResults\<close>); the list it
  extends is taken to be the list \<open>results\<close> it compared against, that is, no other
  upload changes the list in between. \<open>Math.max\<close> of a non-empty argument list is its
  greatest element, and the test \<open>results.length > 0\<close> keeps the empty list away from it.
\<close>

definition handleFileUpload ::
  "string \<Rightarrow> string \<Rightarrow> string + string \<times> nat option \<Rightarrow> string \<Rightarrow> nat \<Rightarrow>
   DetectionResult list \<Rightarrow> string + DetectionResult list" where
  "handleFileUpload name type extracted now_id now results =
     (if type \<noteq> ''application/pdf'' \<and> type \<noteq> ''text/plain''
      then Inl ''Unsupported file type. Please upload a PDF or TXT file.''
      else case extracted of
        Inl message \<Rightarrow> Inl message
      | Inr (text, pages) \<Rightarrow>
          if length text < 50
          then Inl ''File content is too short for meaningful plagiarism detection.''
          else let sim = (if 0 < length results
                          then Max (set (map (\<lambda>result. calculateSimilarity text (content result))
                                       results))
                          else 0);
                   found = findDetailedMatches text results;
                   count = getWordCount text;
                   newResult = \<lparr>id' = now_id, fileName = name, fileType = type,
                                content = text, similarity = sim, matches = found,
                                timestamp = now, wordCount = count, pageCount = pages\<rparr>
               in Inr (newResult # results))"

section \<open>Notions of the specification\<close>

text \<open>
  \<open>weave frags seps\<close> puts the separator runs back between the fragments: a text is
  split "on runs of a separator" when it is the weave of the fragments with non-empty
  runs of separator characters.
\<close>

fun weave :: "string list \<Rightarrow> string list \<Rightarrow> string" where
  "weave [] ds = []"
| "weave (f # fs) [] = f"
| "weave (f # fs) (d # ds) = f @ d @ weave fs ds"

definition isLowerAlpha :: "char \<Rightarrow> bool" where
  \<comment> \<open>the character class \<open>[a-z]\<close>\<close>
  "isLowerAlpha c = (let n = of_char c :: nat in 97 \<le> n \<and> n \<le> 122)"

definition isDigit :: "char \<Rightarrow> bool" where
  "isDigit c = (let n = of_char c :: nat in 48 \<le> n \<and> n \<le> 57)"

definition isPunctuation :: "char \<Rightarrow> bool" where
  \<comment> \<open>the ASCII punctuation and symbol characters\<close>
  "isPunctuation c =
     (let n = of_char c :: nat
      in (33 \<le> n \<and> n \<le> 47) \<or> (58 \<le> n \<and> n \<le> 64) \<or> (91 \<le> n \<and> n \<le> 96) \<or>
         (123 \<le> n \<and> n \<le> 126))"

text \<open>
  The percentage the specification writes for a ratio \<open>i / u\<close>: the exact value of
  \<open>100 * i / u\<close>, rounded to the nearest integer (a half rounds up, as \<open>Math.round\<close> does).
\<close>

definition round_percent :: "nat \<Rightarrow> nat \<Rightarrow> int" where
  "round_percent i u = \<lfloor>100 * (of_nat i :: rat) / of_nat u + 1 / 2\<rfloor>"

definition halfway :: "nat \<Rightarrow> nat \<Rightarrow> bool" where
  \<comment> \<open>\<open>100 * i / u\<close> lies exactly in the middle between two integers\<close>
  "halfway i u = (frac (100 * (of_nat i :: rat) / of_nat u) = 1 / 2)"

definition jaccard_percent :: "string \<Rightarrow> string \<Rightarrow> int" where
  \<comment> \<open>\<open>round(100 * |A \<inter> B| / |A \<union> B|)\<close> over the sets of significant words\<close>
  "jaccard_percent text1 text2 =
     (let A = set (getSignificantWords text1); B = set (getSignificantWords text2)
      in round_percent (card (A \<inter> B)) (card (A \<union> B)))"

definition containment_percent :: "string \<Rightarrow> string \<Rightarrow> int" where
  \<comment> \<open>the words of the first sentence, with multiplicity, that occur in the second, over
      the larger of the two word counts\<close>
  "containment_percent sentence1 sentence2 =
     (let words1 = getSignificantWords sentence1; words2 = getSignificantWords sentence2
      in round_percent (length (filter (\<lambda>w. w \<in> set words2) words1))
           (max (length words1) (length words2)))"

text \<open>
  The entry of a pair of sentences that reaches the threshold, and the candidates in the
  two orders of encounter that come into question: corpus document first (the order of
  the loops), and sentence of the new document first.
\<close>

definition match_of :: "string \<Rightarrow> string \<Rightarrow> DetectionResult \<Rightarrow> MatchedSentence list" where
  "match_of sent existingSentence result =
     (if 75 \<le> calculateSentenceSimilarity sent existingSentence
      then [\<lparr>sentence = (if 200 < length sent then take 200 sent @ ''...'' else sent),
             similarity = calculateSentenceSimilarity sent existingSentence,
             sourceFile = fileName result\<rparr>]
      else [])"

definition candidates_by_document :: "string \<Rightarrow> DetectionResult list \<Rightarrow> MatchedSentence list" where
  "candidates_by_document text corpus =
     concat (map (\<lambda>result.
       concat (map (\<lambda>sent.
         concat (map (\<lambda>existingSentence. match_of sent existingSentence result)
           (extractSentences (content result))))
         (extractSentences text)))
       corpus)"

definition candidates_by_sentence :: "string \<Rightarrow> DetectionResult list \<Rightarrow> MatchedSentence list" where
  "candidates_by_sentence text corpus =
     concat (map (\<lambda>sent.
       concat (map (\<lambda>result.
         concat (map (\<lambda>existingSentence. match_of sent existingSentence result)
           (extractSentences (content result))))
         corpus))
       (extractSentences text))"

section \<open>Example inputs\<close>

definition forty_words :: string where
  "forty_words =
     ''xaa xab xac xad xae xaf xag xah xai xaj xba xbb xbc xbd xbe xbf xbg xbh xbi xbj'' @
     '' xca xcb xcc xcd xce xcf xcg xch xci xcj xda xdb xdc xdd xde xdf xdg xdh xdi xdj''"

definition twenty_three_words :: string where
  "twenty_three_words =
     ''xaa xab xac xad xae xaf xag xah xai xaj xba xbb xbc xbd xbe xbf xbg xbh xbi xbj xca xcb xcc''"

definition repeated_words :: string where
  "repeated_words =
     ''xaa xaa xaa xaa xaa xaa xaa xaa xaa xaa xaa xaa xaa xaa xaa xaa xaa xaa xaa xaa'' @
     '' xaa xaa xaa xab xab xab xab xab xab xab xab xab xab xab xab xab xab xab xab xab''"

definition long_sentence :: string where
  \<comment> \<open>250 characters\<close>
  "long_sentence =
     ''counterrevolutionaries counterrevolutionaries counterrevolutionaries '' @
     ''counterrevolutionaries counterrevolutionaries counterrevolutionaries '' @
     ''counterrevolutionaries counterrevolutionaries counterrevolutionaries '' @
     ''counterrevolutionaries internationalization''"

definition document :: "string \<Rightarrow> string \<Rightarrow> DetectionResult" where
  \<comment> \<open>an earlier result with the given file name and content\<close>
  "document name body =
     \<lparr>id' = ''0'', fileName = name, fileType = ''text/plain'', content = body,
      similarity = 0, matches = [], timestamp = 0, wordCount = getWordCount body,
      pageCount = None\<rparr>"

definition two_sentences :: string where
  "two_sentences = ''Original writing counts. Plagiarism detection matters.''"

definition swapped_corpus :: "DetectionResult list" where
  \<comment> \<open>two earlier documents, holding the second and the first sentence of \<open>two_sentences\<close>\<close>
  "swapped_corpus =
     [document ''doc1'' ''Plagiarism detection matters!'',
      document ''doc2'' ''Original writing counts?'']"

definition match_original :: MatchedSentence where
  "match_original =
     \<lparr>sentence = ''Original writing counts'', similarity = 100, sourceFile = ''doc2''\<rparr>"

definition match_plagiarism :: MatchedSentence where
  "match_plagiarism =
     \<lparr>sentence = ''Plagiarism detection matters'', similarity = 100, sourceFile = ''doc1''\<rparr>"

section \<open>Splitting on runs of a separator\<close>

lemma length_drop_runs:
  assumes "\<exists>c\<in>set s. sep c"
  shows "length (dropWhile sep (dropWhile (\<lambda>c. \<not> sep c) s)) < length s"
proof -
  let ?r = "dropWhile (\<lambda>c. \<not> sep c) s"
  from assms have ne: "?r \<noteq> []" by simp
  then obtain c cs where cs: "?r = c # cs" by (cases ?r) auto
  from hd_dropWhile [OF ne] have "sep c" unfolding cs by simp
  then have "length (dropWhile sep ?r) \<le> length cs"
    unfolding cs by (simp add: length_dropWhile_le)
  also have "\<dots> < length ?r" unfolding cs by simp
  also have "\<dots> \<le> length s" by (rule length_dropWhile_le)
  finally show ?thesis .
qed

lemma split_runs_last:
  "\<forall>c\<in>set s. \<not> sep c \<Longrightarrow> split_runs sep s = [s]"
  by (subst split_runs.simps) (simp add: Let_def)

lemma split_runs_step:
  assumes "\<exists>c\<in>set s. sep c"
  shows "split_runs sep s =
     takeWhile (\<lambda>c. \<not> sep c) s # split_runs sep (dropWhile sep (dropWhile (\<lambda>c. \<not> sep c) s))"
proof -
  from assms have "dropWhile (\<lambda>c. \<not> sep c) s \<noteq> []" by simp
  then show ?thesis
    by (subst split_runs.simps) (simp only: Let_def if_False)
qed

lemma split_runs_cases [case_names last step]:
  fixes sep :: "char \<Rightarrow> bool"
  assumes "\<And>s. \<forall>c\<in>set s. \<not> sep c \<Longrightarrow> P s"
    and "\<And>s. \<exists>c\<in>set s. sep c \<Longrightarrow>
           P (dropWhile sep (dropWhile (\<lambda>c. \<not> sep c) s)) \<Longrightarrow> P s"
  shows "P s"
proof (induction s rule: measure_induct_rule [where f = length])
  case (less s)
  show ?case
  proof (cases "\<forall>c\<in>set s. \<not> sep c")
    case True
    then show ?thesis by (rule assms(1))
  next
    case False
    then have ex: "\<exists>c\<in>set s. sep c" by simp
    from ex less.IH [OF length_drop_runs [OF ex]] show ?thesis by (rule assms(2))
  qed
qed

lemma split_runs_no_sep:
  "f \<in> set (split_runs sep s) \<Longrightarrow> c \<in> set f \<Longrightarrow> \<not> sep c"
proof (induction s rule: split_runs_cases [where sep = sep])
  case (last s)
  then show ?case by (simp add: split_runs_last)
next
  case (step s)
  from step.prems(1) have "f = takeWhile (\<lambda>c. \<not> sep c) s
      \<or> f \<in> set (split_runs sep (dropWhile sep (dropWhile (\<lambda>c. \<not> sep c) s)))"
    unfolding split_runs_step [OF step.hyps] by simp
  then show ?case
  proof
    assume "f = takeWhile (\<lambda>c. \<not> sep c) s"
    with step.prems(2) show ?thesis by (auto dest: set_takeWhileD)
  next
    assume "f \<in> set (split_runs sep (dropWhile sep (dropWhile (\<lambda>c. \<not> sep c) s)))"
    then show ?thesis using step.prems(2) by (rule step.IH)
  qed
qed

lemma split_runs_map:
  assumes g: "\<And>c. sep (g c) = sep c"
  shows "split_runs sep (map g s) = map (map g) (split_runs sep s)"
proof (induction s rule: split_runs_cases [where sep = sep])
  case (last s)
  then have "\<forall>c\<in>set (map g s). \<not> sep c" by (simp add: g)
  then have "split_runs sep (map g s) = [map g s]" by (rule split_runs_last)
  with last show ?case by (simp add: split_runs_last)
next
  case (step s)
  have c: "(\<lambda>c. \<not> sep c) \<circ> g = (\<lambda>c. \<not> sep c)" "sep \<circ> g = sep"
    by (auto simp: g fun_eq_iff)
  from step.hyps have "\<exists>c\<in>set (map g s). sep c" by (simp add: g)
  from split_runs_step [OF this] show ?case
    unfolding split_runs_step [OF step.hyps]
    by (simp add: takeWhile_map dropWhile_map c step.IH)
qed

lemma takeWhile_not_Nil: "xs \<noteq> [] \<Longrightarrow> P (hd xs) \<Longrightarrow> takeWhile P xs \<noteq> []"
  by (cases xs) auto

lemma split_runs_weave:
  "\<exists>ds. length (split_runs sep s) = length ds + 1 \<and>
        (\<forall>d\<in>set ds. d \<noteq> [] \<and> (\<forall>c\<in>set d. sep c)) \<and>
        s = weave (split_runs sep s) ds"
proof (induction s rule: split_runs_cases [where sep = sep])
  case (last s)
  then have "split_runs sep s = [s]" by (rule split_runs_last)
  then have "length (split_runs sep s) = length ([]::string list) + 1 \<and>
        (\<forall>d\<in>set ([]::string list). d \<noteq> [] \<and> (\<forall>c\<in>set d. sep c)) \<and>
        s = weave (split_runs sep s) []" by simp
  then show ?case by blast
next
  case (step s)
  define p where "p = takeWhile (\<lambda>c. \<not> sep c) s"
  define r where "r = dropWhile (\<lambda>c. \<not> sep c) s"
  define t where "t = dropWhile sep r"
  define d where "d = takeWhile sep r"
  have eq: "split_runs sep s = p # split_runs sep t"
    unfolding p_def t_def r_def by (rule split_runs_step [OF step.hyps])
  from step.IH obtain ds where ds: "length (split_runs sep t) = length ds + 1"
    "\<forall>d\<in>set ds. d \<noteq> [] \<and> (\<forall>c\<in>set d. sep c)"
    "t = weave (split_runs sep t) ds" unfolding t_def r_def by blast
  from step.hyps have ne: "r \<noteq> []" unfolding r_def by simp
  have "\<not> \<not> sep (hd r)" using ne unfolding r_def by (rule hd_dropWhile)
  then have "sep (hd r)" by simp
  with ne have dne: "d \<noteq> []" unfolding d_def by (rule takeWhile_not_Nil)
  have dsep: "\<forall>c\<in>set d. sep c" unfolding d_def by (auto dest: set_takeWhileD)
  have "s = p @ r" unfolding p_def r_def by simp
  also have "r = d @ t" unfolding d_def t_def by simp
  finally have "s = p @ d @ t" .
  also have "\<dots> = p @ d @ weave (split_runs sep t) ds" using ds(3) by simp
  also have "\<dots> = weave (split_runs sep s) (d # ds)" unfolding eq by simp
  finally have 1: "s = weave (split_runs sep s) (d # ds)" .
  have 2: "length (split_runs sep s) = length (d # ds) + 1"
    unfolding eq using ds(1) by simp
  have 3: "\<forall>d\<in>set (d # ds). d \<noteq> [] \<and> (\<forall>c\<in>set d. sep c)"
    using ds(2) dne dsep by simp
  from 1 2 3 show ?case by blast
qed

lemma split_runs_inner:
  "0 < k \<Longrightarrow> k + 1 < length (split_runs sep s) \<Longrightarrow> split_runs sep s ! k \<noteq> []"
proof (induction s arbitrary: k rule: split_runs_cases [where sep = sep])
  case (last s)
  then show ?case by (simp add: split_runs_last)
next
  case (step s)
  define t where "t = dropWhile sep (dropWhile (\<lambda>c. \<not> sep c) s)"
  have eq: "split_runs sep s = takeWhile (\<lambda>c. \<not> sep c) s # split_runs sep t"
    unfolding t_def by (rule split_runs_step [OF step.hyps])
  from step.prems obtain j where k: "k = Suc j" by (cases k) auto
  from step.prems(2) have j: "j + 1 < length (split_runs sep t)"
    unfolding eq k by simp
  have nth: "split_runs sep s ! k = split_runs sep t ! j"
    unfolding eq k by simp
  show ?case
  proof (cases j)
    case 0
    have ex: "\<exists>c\<in>set t. sep c"
    proof (rule ccontr)
      assume "\<not> ?thesis"
      then have "\<forall>c\<in>set t. \<not> sep c" by blast
      then have "split_runs sep t = [t]" by (rule split_runs_last)
      with j show False by simp
    qed
    then have ne: "t \<noteq> []" by auto
    then have "\<not> sep (hd t)" unfolding t_def by (rule hd_dropWhile)
    with ne have "takeWhile (\<lambda>c. \<not> sep c) t \<noteq> []" by (rule takeWhile_not_Nil)
    then show ?thesis
      unfolding nth 0 split_runs_step [OF ex] by simp
  next
    case (Suc i)
    then have "0 < j" by simp
    then have "split_runs sep t ! j \<noteq> []" using j unfolding t_def by (rule step.IH)
    then show ?thesis unfolding nth .
  qed
qed

lemma split_runs_chars:
  "f \<in> set (split_runs sep s) \<Longrightarrow> set f \<subseteq> set s"
proof (induction s rule: split_runs_cases [where sep = sep])
  case (last s)
  then show ?case by (simp add: split_runs_last)
next
  case (step s)
  define t where "t = dropWhile sep (dropWhile (\<lambda>c. \<not> sep c) s)"
  have eq: "split_runs sep s = takeWhile (\<lambda>c. \<not> sep c) s # split_runs sep t"
    unfolding t_def by (rule split_runs_step [OF step.hyps])
  have t: "set t \<subseteq> set s"
    unfolding t_def by (meson set_dropWhileD subsetI)
  from step.prems have "f = takeWhile (\<lambda>c. \<not> sep c) s \<or> f \<in> set (split_runs sep t)"
    unfolding eq by simp
  then show ?case
  proof
    assume "f = takeWhile (\<lambda>c. \<not> sep c) s"
    then show ?thesis by (auto dest: set_takeWhileD)
  next
    assume "f \<in> set (split_runs sep t)"
    then have "set f \<subseteq> set t" unfolding t_def by (rule step.IH)
    with t show ?thesis by blast
  qed
qed

lemma toLowerChar_code:
  "of_char (toLowerChar c) =
     (let n = of_char c :: nat
      in if (65 \<le> n \<and> n \<le> 90) \<or> (192 \<le> n \<and> n \<le> 222 \<and> n \<noteq> 215) then n + 32 else n)"
  by (auto simp: toLowerChar_def Let_def)

lemma isWhiteSpace_toLowerChar: "isWhiteSpace (toLowerChar c) = isWhiteSpace c"
  unfolding isWhiteSpace_def toLowerChar_code Let_def by auto

lemma toLowerChar_not_upper:
  "isAsciiLetter (toLowerChar c) \<Longrightarrow> isLowerAlpha (toLowerChar c)"
  unfolding isAsciiLetter_def isLowerAlpha_def toLowerChar_code Let_def
  by (auto split: if_splits)

lemma toLowerChar_lower: "isLowerAlpha c \<Longrightarrow> toLowerChar c = c"
  unfolding isLowerAlpha_def toLowerChar_def Let_def by auto

lemma toLowerCase_lower: "\<forall>c\<in>set w. isLowerAlpha c \<Longrightarrow> toLowerCase w = w"
  unfolding toLowerCase_def by (simp add: toLowerChar_lower map_idI)

lemma stopWords_lower: "s \<in> set stopWords \<Longrightarrow> toLowerCase s = s"
  unfolding stopWords_def toLowerCase_def toLowerChar_def by auto

lemma isLowerAlpha_plain: "isLowerAlpha c \<Longrightarrow> \<not> isDigit c \<and> \<not> isPunctuation c"
  unfolding isLowerAlpha_def isDigit_def isPunctuation_def Let_def by auto

lemma trim_chars: "set (trim s) \<subseteq> set s"
proof -
  have "set (trim s) \<subseteq> set (rev (dropWhile isWhiteSpace s))"
    unfolding trim_def by (auto dest: set_dropWhileD)
  also have "\<dots> \<subseteq> set s" by (auto dest: set_dropWhileD)
  finally show ?thesis .
qed

lemma significant_word_props:
  assumes "w \<in> set (getSignificantWords text)"
  shows "w \<in> set (split_runs isWhiteSpace (toLowerCase text))"
    and "3 \<le> length w" and "\<forall>c\<in>set w. isLowerAlpha c" and "w \<notin> set stopWords"
proof -
  from assms show tok: "w \<in> set (split_runs isWhiteSpace (toLowerCase text))"
    and "3 \<le> length w" and ns: "w \<notin> set stopWords"
    unfolding getSignificantWords_def MIN_WORD_LENGTH_def isStopWord_def by simp_all
  from assms have al: "\<forall>c\<in>set w. isAsciiLetter c"
    unfolding getSignificantWords_def test_alpha_def by (simp add: list_all_iff)
  show "\<forall>c\<in>set w. isLowerAlpha c"
  proof
    fix c assume c: "c \<in> set w"
    with split_runs_chars [OF tok] have "c \<in> set (toLowerCase text)" by blast
    then obtain d where "c = toLowerChar d" unfolding toLowerCase_def by auto
    with al c show "isLowerAlpha c" using toLowerChar_not_upper by blast
  qed
qed

section \<open>Rounding to the nearest double\<close>

lemma round_half_even_error: "\<bar>of_int (round_half_even x) - x\<bar> \<le> 1 / 2"
proof -
  have "of_int \<lfloor>x\<rfloor> \<le> x" "x < of_int \<lfloor>x\<rfloor> + 1" by linarith+
  then show ?thesis
    unfolding round_half_even_def Let_def by (auto simp: abs_le_iff)
qed

lemma round_half_even_of_int: "round_half_even (of_int k) = k"
  unfolding round_half_even_def Let_def by simp

lemma round_half_even_le_int:
  assumes "x \<le> of_int n"
  shows "round_half_even x \<le> n"
proof (cases "x = of_int n")
  case True
  then show ?thesis by (simp add: round_half_even_of_int)
next
  case False
  with assms have "x < of_int n" by simp
  then have "\<lfloor>x\<rfloor> < n" by (simp add: floor_less_iff)
  then show ?thesis
    unfolding round_half_even_def Let_def by auto
qed

lemma round_half_even_ge_int:
  assumes "of_int n \<le> x"
  shows "n \<le> round_half_even x"
proof -
  from assms have "n \<le> \<lfloor>x\<rfloor>" by (simp add: le_floor_iff)
  then show ?thesis
    unfolding round_half_even_def Let_def by auto
qed

lemma round_half_even_mono:
  assumes "x \<le> y"
  shows "round_half_even x \<le> round_half_even y"
proof (cases "\<lfloor>x\<rfloor> = \<lfloor>y\<rfloor>")
  case True
  with assms show ?thesis
    unfolding round_half_even_def Let_def by auto
next
  case False
  with assms have "\<lfloor>x\<rfloor> + 1 \<le> \<lfloor>y\<rfloor>" using floor_mono [of x y] by linarith
  then have "of_int (\<lfloor>x\<rfloor> + 1) \<le> y" by (simp add: le_floor_iff)
  then have "\<lfloor>x\<rfloor> + 1 \<le> round_half_even y" by (rule round_half_even_ge_int)
  moreover have "x \<le> of_int (\<lfloor>x\<rfloor> + 1)" by simp linarith
  then have "round_half_even x \<le> \<lfloor>x\<rfloor> + 1" by (rule round_half_even_le_int)
  ultimately show ?thesis by linarith
qed

lemma binade_bounds:
  assumes "0 < x"
  shows "2 powi binade x \<le> x" and "x < 2 powi (binade x + 1)"
proof -
  obtain p q where pq: "quotient_of x = (p, q)" by (cases "quotient_of x")
  then have q: "0 < q" by (rule quotient_of_denom_pos)
  from pq have x: "x = of_int p / of_int q" by (rule quotient_of_div)
  with assms q have p: "0 < p" by (simp add: zero_less_divide_iff)
  define a where "a = bitlen p"
  define b where "b = bitlen q"
  from p q have a1: "1 \<le> a" and b1: "1 \<le> b"
    unfolding a_def b_def by (simp_all add: bitlen_alt_def)
  from bitlen_bounds [OF p] have pa: "2 ^ nat (a - 1) \<le> p" "p < 2 ^ nat a"
    unfolding a_def by simp_all
  from bitlen_bounds [OF q] have qb: "2 ^ nat (b - 1) \<le> q" "q < 2 ^ nat b"
    unfolding b_def by simp_all
  have nat_pow: "(2::rat) powi k = of_int (2 ^ nat k)" if "0 \<le> k" for k
    using that by (simp add: power_int_def)
  have pa': "(2::rat) powi (a - 1) \<le> of_int p" "of_int p < (2::rat) powi a"
    using pa a1 unfolding nat_pow [of "a - 1", OF diff_ge_0_iff_ge [THEN iffD2, OF a1]]
      nat_pow [of a, OF order_trans [OF zero_le_one a1]]
    by (simp_all only: of_int_le_iff of_int_less_iff)
  have qb': "(2::rat) powi (b - 1) \<le> of_int q" "of_int q < (2::rat) powi b"
    using qb b1 unfolding nat_pow [of "b - 1", OF diff_ge_0_iff_ge [THEN iffD2, OF b1]]
      nat_pow [of b, OF order_trans [OF zero_le_one b1]]
    by (simp_all only: of_int_le_iff of_int_less_iff)
  have qpos: "(0::rat) < of_int q" using q by simp
  have ppos: "(0::rat) < of_int p" using p by simp
  have up: "x < 2 powi (a - b + 1)"
  proof -
    have "x < 2 powi a / of_int q"
      unfolding x using pa'(2) qpos by (simp add: divide_strict_right_mono)
    also have "\<dots> \<le> 2 powi a / 2 powi (b - 1)"
      using qb'(1) qpos by (intro divide_left_mono) (simp_all add: zero_less_mult_iff)
    also have "\<dots> = 2 powi (a - b + 1)"
      by (simp add: power_int_diff [symmetric] algebra_simps)
    finally show ?thesis .
  qed
  have lo: "2 powi (a - b - 1) < x"
  proof -
    have "(2::rat) powi (a - b - 1) = 2 powi (a - 1) / 2 powi b"
      by (simp add: power_int_diff [symmetric] algebra_simps)
    also have "\<dots> < 2 powi (a - 1) / of_int q"
      using qb'(2) qpos by (intro divide_strict_left_mono) simp_all
    also have "\<dots> \<le> x"
      unfolding x using pa'(1) qpos by (simp add: divide_right_mono)
    finally show ?thesis .
  qed
  have bin: "binade x = (if 2 powi (a - b) \<le> x then a - b else a - b - 1)"
    unfolding binade_def pq a_def b_def by (simp add: Let_def)
  show "2 powi binade x \<le> x"
    unfolding bin using lo by auto
  show "x < 2 powi (binade x + 1)"
    unfolding bin using up by auto
qed

lemma fl_pos:
  assumes "0 < x"
  shows "fl x = of_int (round_half_even (x / 2 powi (binade x - 52))) * 2 powi (binade x - 52)"
  using assms unfolding fl_def Let_def by simp

lemma ulp_scale: "(2::rat) ^ n * 2 powi (e - int n) = 2 powi e"
  by (simp add: power_int_diff)

lemma ulp_bounds:
  assumes "0 < x"
  shows "2 ^ 52 * 2 powi (binade x - 52) \<le> x" and "x < 2 ^ 53 * 2 powi (binade x - 52)"
proof -
  have lo: "(2::rat) ^ 52 * 2 powi (binade x - 52) = 2 powi binade x"
    using ulp_scale [of 52 "binade x"] by simp
  have hi: "(2::rat) ^ 53 * 2 powi (binade x - 52) = 2 powi (binade x + 1)"
    using ulp_scale [of 53 "binade x + 1"] by simp
  show "2 ^ 52 * 2 powi (binade x - 52) \<le> x"
    unfolding lo by (rule binade_bounds(1) [OF assms])
  show "x < 2 ^ 53 * 2 powi (binade x - 52)"
    unfolding hi by (rule binade_bounds(2) [OF assms])
qed

lemma fl_range:
  assumes "0 < x"
  shows "2 powi binade x \<le> fl x" and "fl x \<le> 2 powi (binade x + 1)"
proof -
  define u :: rat where "u = 2 powi (binade x - 52)"
  define m where "m = x / u"
  have u: "0 < u" unfolding u_def by simp
  have f: "fl x = of_int (round_half_even m) * u"
    unfolding m_def u_def by (rule fl_pos [OF assms])
  have lo: "2 powi binade x = 2 ^ 52 * u"
    unfolding u_def using ulp_scale [of 52 "binade x"] by simp
  have hi: "2 powi (binade x + 1) = 2 ^ 53 * u"
    unfolding u_def using ulp_scale [of 53 "binade x + 1"] by simp
  from ulp_bounds [OF assms] have b: "2 ^ 52 * u \<le> x" "x < 2 ^ 53 * u"
    unfolding u_def by blast+
  have "of_int (2 ^ 52) \<le> m"
    unfolding m_def using b(1) u by (simp only: pos_le_divide_eq of_int_power of_int_numeral)
  then have "2 ^ 52 \<le> round_half_even m" by (rule round_half_even_ge_int)
  then have "(of_int (2 ^ 52) :: rat) \<le> of_int (round_half_even m)"
    by (simp only: of_int_le_iff)
  then have "(2::rat) ^ 52 * u \<le> of_int (round_half_even m) * u"
    using u by (intro mult_right_mono) simp_all
  then show "2 powi binade x \<le> fl x" unfolding f lo .
  have "m \<le> of_int (2 ^ 53)"
    unfolding m_def using b(2) u
    by (simp only: pos_divide_le_eq of_int_power of_int_numeral less_imp_le)
  then have "round_half_even m \<le> 2 ^ 53" by (rule round_half_even_le_int)
  then have "of_int (round_half_even m) \<le> (of_int (2 ^ 53) :: rat)"
    by (simp only: of_int_le_iff)
  then have "of_int (round_half_even m) * u \<le> (2::rat) ^ 53 * u"
    using u by (intro mult_right_mono) simp_all
  then show "fl x \<le> 2 powi (binade x + 1)" unfolding f hi .
qed

lemma fl_error:
  assumes "0 < x"
  shows "\<bar>fl x - x\<bar> \<le> x / 2 ^ 53"
proof -
  define u :: rat where "u = 2 powi (binade x - 52)"
  define m where "m = x / u"
  have u: "0 < u" unfolding u_def by simp
  have f: "fl x = of_int (round_half_even m) * u"
    unfolding m_def u_def by (rule fl_pos [OF assms])
  have x: "m * u = x" unfolding m_def using u by simp
  from ulp_bounds(1) [OF assms] have "2 ^ 52 * u \<le> x" unfolding u_def .
  then have ux: "1 / 2 * u \<le> x / 2 ^ 53" by simp
  have "fl x - x = of_int (round_half_even m) * u - m * u"
    unfolding f x ..
  also have "\<dots> = (of_int (round_half_even m) - m) * u"
    by (simp add: algebra_simps)
  finally have "\<bar>fl x - x\<bar> = \<bar>of_int (round_half_even m) - m\<bar> * u"
    using u by (simp add: abs_mult)
  also have "\<dots> \<le> 1 / 2 * u"
    using round_half_even_error [of m] u by (intro mult_right_mono) simp_all
  also note ux
  finally show ?thesis .
qed

lemma binade_mono:
  assumes "0 < x" "x \<le> y"
  shows "binade x \<le> binade y"
proof (rule ccontr)
  assume "\<not> binade x \<le> binade y"
  then have "binade y + 1 \<le> binade x" by simp
  then have "(2::rat) powi (binade y + 1) \<le> 2 powi binade x"
    by (intro power_int_increasing) simp_all
  from assms have y: "0 < y" by simp
  have "y < 2 powi (binade y + 1)" by (rule binade_bounds(2) [OF y])
  also note \<open>(2::rat) powi (binade y + 1) \<le> 2 powi binade x\<close>
  also have "2 powi binade x \<le> x" by (rule binade_bounds(1) [OF assms(1)])
  finally show False using assms(2) by simp
qed

lemma fl_mono:
  assumes "0 < x" "x \<le> y"
  shows "fl x \<le> fl y"
proof -
  from assms have y: "0 < y" by simp
  from binade_mono [OF assms] consider "binade x = binade y" | "binade x + 1 \<le> binade y"
    by linarith
  then show ?thesis
  proof cases
    case 1
    define u :: rat where "u = 2 powi (binade y - 52)"
    have u: "0 < u" unfolding u_def by simp
    have "x / u \<le> y / u" using assms(2) u by (simp add: divide_right_mono)
    then have "round_half_even (x / u) \<le> round_half_even (y / u)"
      by (rule round_half_even_mono)
    then have "(of_int (round_half_even (x / u)) :: rat) \<le> of_int (round_half_even (y / u))"
      by (simp only: of_int_le_iff)
    then have "of_int (round_half_even (x / u)) * u \<le> of_int (round_half_even (y / u)) * u"
      using u by (intro mult_right_mono) simp_all
    then show ?thesis
      unfolding fl_pos [OF assms(1)] fl_pos [OF y] 1 u_def .
  next
    case 2
    have "fl x \<le> 2 powi (binade x + 1)" by (rule fl_range(2) [OF assms(1)])
    also have "\<dots> \<le> 2 powi binade y" using 2 by (intro power_int_increasing) simp_all
    also have "\<dots> \<le> fl y" by (rule fl_range(1) [OF y])
    finally show ?thesis .
  qed
qed

lemma fl_nonneg:
  assumes "0 \<le> x"
  shows "0 \<le> fl x"
proof (cases "x = 0")
  case True
  then show ?thesis by (simp add: fl_def)
next
  case False
  with assms have x: "0 < x" by simp
  have "(0::rat) \<le> 2 powi binade x" by simp
  also have "\<dots> \<le> fl x" by (rule fl_range(1) [OF x])
  finally show ?thesis .
qed

lemma fl_1: "fl 1 = 1"
  by code_simp

lemma fl_100: "fl 100 = 100"
  by code_simp

lemma round_near:
  fixes z :: rat and i u :: nat
  assumes u: "0 < u" "u < 2 ^ 44"
    and e: "\<bar>z - 100 * of_nat i / of_nat u\<bar> \<le> 200 / 2 ^ 53"
  shows "Math_round z = round_percent i u \<or>
         (Math_round z = round_percent i u - 1 \<and> halfway i u)"
proof -
  define k where "k = \<lfloor>z + 1 / 2\<rfloor>"
  define t :: rat where "t = 100 * of_nat i / of_nat u"
  define U :: rat where "U = of_nat u"
  have U: "0 < U" "U < 2 ^ 44" unfolding U_def using u by simp_all
  have tU: "t * U = 100 * of_nat i" unfolding t_def U_def using u by simp
  have k1: "of_int k \<le> z + 1 / 2" and k2: "z + 1 / 2 < of_int k + 1"
    unfolding k_def by linarith+
  from e have z1: "z \<le> t + 200 / 2 ^ 53" and z2: "t - 200 / 2 ^ 53 \<le> z"
    unfolding t_def by linarith+
  have eps: "2 * U * (200 / 2 ^ 53) < 1" using U by simp
  have A: "of_int k \<le> t + 1 / 2"
  proof -
    define a :: int where "a = 2 * int u * k - (200 * int i + int u)"
    have "of_int a = 2 * U * (of_int k - t - 1 / 2)"
      unfolding a_def U_def [symmetric] using tU
      by (simp add: algebra_simps U_def)
    also have "\<dots> \<le> 2 * U * (200 / 2 ^ 53)"
      using k1 z1 U by (intro mult_left_mono) simp_all
    also note eps
    finally have "a < 1" by simp
    then have "(of_int a :: rat) \<le> 0" by simp
    then have "2 * U * (of_int k - t - 1 / 2) \<le> 0"
      unfolding \<open>of_int a = 2 * U * (of_int k - t - 1 / 2)\<close> .
    with U show ?thesis by (simp add: mult_le_0_iff)
  qed
  have B: "t + 1 / 2 \<le> of_int k + 1"
  proof -
    define b :: int where "b = (200 * int i + int u) - 2 * int u * (k + 1)"
    have bb: "of_int b = 2 * U * (t + 1 / 2 - of_int k - 1)"
      unfolding b_def using tU
      by (simp add: algebra_simps U_def)
    also have "\<dots> \<le> 2 * U * (200 / 2 ^ 53)"
      using k2 z2 U by (intro mult_left_mono) simp_all
    also note eps
    finally have "b < 1" by simp
    then have "(of_int b :: rat) \<le> 0" by simp
    then have "2 * U * (t + 1 / 2 - of_int k - 1) \<le> 0"
      unfolding bb .
    with U show ?thesis by (simp add: mult_le_0_iff)
  qed
  have rp: "round_percent i u = \<lfloor>t + 1 / 2\<rfloor>"
    unfolding round_percent_def t_def ..
  have mr: "Math_round z = k" unfolding Math_round_def k_def ..
  show ?thesis
  proof (cases "t + 1 / 2 < of_int k + 1")
    case True
    with A have "\<lfloor>t + 1 / 2\<rfloor> = k" by (intro floor_unique) simp_all
    then show ?thesis unfolding rp mr by simp
  next
    case False
    with B have eq: "t + 1 / 2 = of_int (k + 1)" by simp
    then have "\<lfloor>t + 1 / 2\<rfloor> = k + 1" by (simp only: floor_of_int)
    moreover from eq have "t = of_int k + 1 / 2" by simp
    then have "\<lfloor>t\<rfloor> = k" by (intro floor_unique) simp_all
    with \<open>t = of_int k + 1 / 2\<close> have "frac t = 1 / 2" unfolding frac_def by simp
    then have "halfway i u" unfolding halfway_def t_def .
    ultimately show ?thesis unfolding rp mr by simp
  qed
qed

lemma percent_value:
  fixes i u :: nat
  assumes u: "0 < u" and iu: "i \<le> u"
  defines "z \<equiv> js_mul (js_div (of_nat i) (of_nat u)) 100"
  shows "0 \<le> z" and "z \<le> 100" and "\<bar>z - 100 * of_nat i / of_nat u\<bar> \<le> 200 / 2 ^ 53"
proof -
  define x :: rat where "x = of_nat i / of_nat u"
  define d where "d = fl x"
  have z: "z = fl (d * 100)" unfolding z_def js_mul_def js_div_def d_def x_def ..
  have x1: "x \<le> 1" unfolding x_def using u iu by simp
  have x0: "0 \<le> x" unfolding x_def by simp
  have all: "0 \<le> z \<and> z \<le> 100 \<and> \<bar>z - 100 * x\<bar> \<le> 200 / 2 ^ 53"
  proof (cases "x = 0")
    case True
    then have "z = 0" unfolding z d_def by (simp add: fl_def)
    with True show ?thesis by simp
  next
    case False
    with x0 have xp: "0 < x" by simp
    have "d \<le> fl 1" unfolding d_def using xp x1 by (rule fl_mono)
    then have d1: "d \<le> 1" unfolding fl_1 .
    have "(0::rat) < 2 powi binade x" by simp
    also have "\<dots> \<le> d" unfolding d_def by (rule fl_range(1) [OF xp])
    finally have dp: "0 < d" .
    then have d100: "0 < d * 100" by simp
    have "d * 100 \<le> 100" using d1 by simp
    with d100 have "z \<le> fl 100" unfolding z by (rule fl_mono)
    then have z100: "z \<le> 100" unfolding fl_100 .
    have z0: "0 \<le> z" unfolding z using d100 by (intro fl_nonneg) simp
    have "\<bar>d - x\<bar> \<le> x / 2 ^ 53" unfolding d_def by (rule fl_error [OF xp])
    also have "\<dots> \<le> 1 / 2 ^ 53" using x1 by (simp add: divide_right_mono)
    finally have e1: "\<bar>d - x\<bar> \<le> 1 / 2 ^ 53" .
    have "\<bar>z - d * 100\<bar> \<le> d * 100 / 2 ^ 53" unfolding z by (rule fl_error [OF d100])
    also have "\<dots> \<le> 100 / 2 ^ 53" using d1 by (simp add: divide_right_mono)
    finally have e2: "\<bar>z - d * 100\<bar> \<le> 100 / 2 ^ 53" .
    from e1 e2 have "\<bar>z - 100 * x\<bar> \<le> 200 / 2 ^ 53" by linarith
    with z0 z100 show ?thesis by blast
  qed
  from all show "0 \<le> z" and "z \<le> 100"
    and "\<bar>z - 100 * of_nat i / of_nat u\<bar> \<le> 200 / 2 ^ 53"
    unfolding x_def by simp_all
qed

lemma percent_range:
  fixes i u :: nat
  assumes "0 < u" "i \<le> u"
  shows "0 \<le> Math_round (js_mul (js_div (of_nat i) (of_nat u)) 100)"
    and "Math_round (js_mul (js_div (of_nat i) (of_nat u)) 100) \<le> 100"
proof -
  note b = percent_value(1,2) [OF assms]
  from b(1) show "0 \<le> Math_round (js_mul (js_div (of_nat i) (of_nat u)) 100)"
    unfolding Math_round_def by simp
  from b(2) have "js_mul (js_div (of_nat i) (of_nat u)) 100 + 1 / 2 < of_int 101" by simp
  then have "\<lfloor>js_mul (js_div (of_nat i) (of_nat u)) 100 + 1 / 2\<rfloor> < 101"
    by (simp only: floor_less_iff)
  then show "Math_round (js_mul (js_div (of_nat i) (of_nat u)) 100) \<le> 100"
    unfolding Math_round_def by simp
qed

lemma percent_full:
  fixes u :: nat
  assumes "0 < u"
  shows "Math_round (js_mul (js_div (of_nat u) (of_nat u)) 100) = 100"
proof -
  from assms have "js_div (of_nat u) (of_nat u) = 1"
    unfolding js_div_def by (simp add: fl_1)
  then have "js_mul (js_div (of_nat u) (of_nat u)) 100 = 100"
    unfolding js_mul_def by (simp add: fl_100)
  moreover have "\<lfloor>(100::rat) + 1 / 2\<rfloor> = 100" by (rule floor_unique) simp_all
  ultimately show ?thesis unfolding Math_round_def by (simp only:)
qed

lemma percent_near:
  fixes i u :: nat
  assumes "0 < u" "i \<le> u" "u < 2 ^ 44"
  shows "Math_round (js_mul (js_div (of_nat i) (of_nat u)) 100) = round_percent i u \<or>
         (Math_round (js_mul (js_div (of_nat i) (of_nat u)) 100) = round_percent i u - 1 \<and>
          halfway i u)"
  using assms(1,3) percent_value(3) [OF assms(1,2)] by (rule round_near)

section \<open>The similarity scores\<close>

lemma calculateSimilarity_eq:
  "calculateSimilarity text1 text2 =
     (if getSignificantWords text1 = [] \<or> getSignificantWords text2 = [] then 0
      else Math_round (js_mul (js_div
             (of_nat (card (set (getSignificantWords text1) \<inter> set (getSignificantWords text2))))
             (of_nat (card (set (getSignificantWords text1) \<union> set (getSignificantWords text2)))))
             100))"
proof -
  have "Set.filter (\<lambda>x. x \<in> set (getSignificantWords text2)) (set (getSignificantWords text1)) =
      set (getSignificantWords text1) \<inter> set (getSignificantWords text2)"
    by auto
  then show ?thesis unfolding calculateSimilarity_def Let_def by simp
qed

lemma calculateSentenceSimilarity_eq:
  "calculateSentenceSimilarity sentence1 sentence2 =
     (if getSignificantWords sentence1 = [] \<or> getSignificantWords sentence2 = [] then 0
      else Math_round (js_mul (js_div
             (of_nat (length (filter (\<lambda>w. w \<in> set (getSignificantWords sentence2))
                                (getSignificantWords sentence1))))
             (of_nat (max (length (getSignificantWords sentence1))
                          (length (getSignificantWords sentence2)))))
             100))"
  unfolding calculateSentenceSimilarity_def Let_def by simp

lemma jaccard_sizes:
  assumes "xs \<noteq> []"
  shows "0 < card (set xs \<union> set ys)" and "card (set xs \<inter> set ys) \<le> card (set xs \<union> set ys)"
    and "card (set xs \<union> set ys) \<le> length xs + length ys"
proof -
  from assms have "set xs \<union> set ys \<noteq> {}" by simp
  then show "0 < card (set xs \<union> set ys)" by (simp add: card_gt_0_iff)
  show "card (set xs \<inter> set ys) \<le> card (set xs \<union> set ys)"
    by (intro card_mono) auto
  have "card (set xs \<union> set ys) \<le> card (set xs) + card (set ys)" by (rule card_Un_le)
  also have "\<dots> \<le> length xs + length ys"
    by (intro add_mono card_length)
  finally show "card (set xs \<union> set ys) \<le> length xs + length ys" .
qed

lemma containment_sizes:
  assumes "xs \<noteq> []"
  shows "0 < max (length xs) (length ys)"
    and "length (filter P xs) \<le> max (length xs) (length ys)"
proof -
  from assms show "0 < max (length xs) (length ys)" by (cases xs) auto
  have "length (filter P xs) \<le> length xs" by (rule length_filter_le)
  then show "length (filter P xs) \<le> max (length xs) (length ys)" by linarith
qed

lemma calculateSimilarity_self:
  assumes "getSignificantWords A \<noteq> []"
  shows "calculateSimilarity A A = 100"
proof -
  from assms have "0 < card (set (getSignificantWords A))" by (simp add: card_gt_0_iff)
  then show ?thesis
    unfolding calculateSimilarity_eq using assms by (simp add: percent_full)
qed

lemma calculateSentenceSimilarity_self:
  assumes "getSignificantWords A \<noteq> []"
  shows "calculateSentenceSimilarity A A = 100"
proof -
  from assms have "0 < length (getSignificantWords A)" by simp
  then show ?thesis
    unfolding calculateSentenceSimilarity_eq using assms by (simp add: percent_full)
qed

lemma calculateSimilarity_commute:
  "calculateSimilarity A B = calculateSimilarity B A"
  unfolding calculateSimilarity_eq by (simp add: Int_commute Un_commute disj_commute)

section \<open>Ranking and the loops of findDetailedMatches\<close>

lemma insert_sorted_insort:
  "insert_sorted compare_similarity x ys = insort_key (\<lambda>m. - MatchedSentence.similarity m) x ys"
  by (induction ys) (simp_all add: compare_similarity_def)

lemma sort_with_sort_key:
  "sort_with compare_similarity xs = sort_key (\<lambda>m. - MatchedSentence.similarity m) xs"
proof -
  have "insert_sorted compare_similarity = insort_key (\<lambda>m. - MatchedSentence.similarity m)"
    by (intro ext) (rule insert_sorted_insort)
  then show ?thesis unfolding sort_with_def sort_key_def by simp
qed

lemma sort_with_sorted:
  "sorted_wrt (\<lambda>a b. MatchedSentence.similarity b \<le> MatchedSentence.similarity a)
     (sort_with compare_similarity xs)"
proof -
  have "sorted (map (\<lambda>m. - MatchedSentence.similarity m) (sort_with compare_similarity xs))"
    unfolding sort_with_sort_key by (rule sorted_sort_key)
  then show ?thesis by (simp add: sorted_map)
qed

lemma sort_with_stable:
  "filter (\<lambda>m. MatchedSentence.similarity m = k) (sort_with compare_similarity xs) =
   filter (\<lambda>m. MatchedSentence.similarity m = k) xs"
proof -
  have "filter (\<lambda>m. - MatchedSentence.similarity m = - k) (sort_with compare_similarity xs) =
        filter (\<lambda>m. - MatchedSentence.similarity m = - k) xs"
    unfolding sort_with_sort_key by (rule sort_key_stable)
  then show ?thesis by simp
qed

lemma sort_with_set: "set (sort_with compare_similarity xs) = set xs"
  unfolding sort_with_sort_key by simp

lemma fold_append_concat:
  "fold (\<lambda>x acc. acc @ f x) xs a = a @ concat (map f xs)"
  by (induction xs arbitrary: a) simp_all

lemma collect_entries:
  "fold (\<lambda>existingSentence acc.
        let sim = calculateSentenceSimilarity sent existingSentence
        in if SIMILARITY_THRESHOLD \<le> sim
           then acc @
             [\<lparr>sentence = take 200 sent @ (if 200 < length sent then ''...'' else []),
               similarity = sim, sourceFile = fileName result\<rparr>]
           else acc) es acc =
   acc @ concat (map (\<lambda>existingSentence. match_of sent existingSentence result) es)"
  by (induction es arbitrary: acc)
    (simp_all add: match_of_def SIMILARITY_THRESHOLD_def Let_def)

lemma collect_matches_candidates:
  "collect_matches text corpus = candidates_by_document text corpus"
proof -
  have inner: "fold (\<lambda>existingSentence acc.
        let sim = calculateSentenceSimilarity sent existingSentence
        in if SIMILARITY_THRESHOLD \<le> sim
           then acc @
             [\<lparr>sentence = take 200 sent @ (if 200 < length sent then ''...'' else []),
               similarity = sim, sourceFile = fileName result\<rparr>]
           else acc) es =
      (\<lambda>acc. acc @ concat (map (\<lambda>existingSentence. match_of sent existingSentence result) es))"
    for sent result es
    by (intro ext) (rule collect_entries)
  have outer: "fold (\<lambda>x acc. acc @ f x) xs = (\<lambda>a. a @ concat (map f xs))"
    for f :: "'b \<Rightarrow> MatchedSentence list" and xs
    by (intro ext) (rule fold_append_concat)
  show ?thesis
    unfolding collect_matches_def candidates_by_document_def
    by (simp only: Let_def [of "extractSentences _"] inner outer append_Nil)
qed

lemma match_of_iff:
  "m \<in> set (match_of sent existing result) \<longleftrightarrow>
     75 \<le> calculateSentenceSimilarity sent existing \<and>
     m = \<lparr>sentence = (if 200 < length sent then take 200 sent @ ''...'' else sent),
          similarity = calculateSentenceSimilarity sent existing,
          sourceFile = fileName result\<rparr>"
  unfolding match_of_def by auto

section \<open>The examples, evaluated\<close>

lemma words_forty:
  "getSignificantWords forty_words =
     [''xaa'', ''xab'', ''xac'', ''xad'', ''xae'', ''xaf'', ''xag'', ''xah'', ''xai'', ''xaj'',
      ''xba'', ''xbb'', ''xbc'', ''xbd'', ''xbe'', ''xbf'', ''xbg'', ''xbh'', ''xbi'', ''xbj'',
      ''xca'', ''xcb'', ''xcc'', ''xcd'', ''xce'', ''xcf'', ''xcg'', ''xch'', ''xci'', ''xcj'',
      ''xda'', ''xdb'', ''xdc'', ''xdd'', ''xde'', ''xdf'', ''xdg'', ''xdh'', ''xdi'', ''xdj'']"
  by code_simp

lemma words_twenty_three:
  "getSignificantWords twenty_three_words =
     [''xaa'', ''xab'', ''xac'', ''xad'', ''xae'', ''xaf'', ''xag'', ''xah'', ''xai'', ''xaj'',
      ''xba'', ''xbb'', ''xbc'', ''xbd'', ''xbe'', ''xbf'', ''xbg'', ''xbh'', ''xbi'', ''xbj'',
      ''xca'', ''xcb'', ''xcc'']"
  by code_simp

lemma words_repeated:
  "getSignificantWords repeated_words = replicate 23 ''xaa'' @ replicate 17 ''xab''"
  by code_simp

lemma words_xaa: "getSignificantWords ''xaa'' = [''xaa'']"
  by code_simp

lemma card_inter_forty:
  "card (set (getSignificantWords forty_words) \<inter> set (getSignificantWords twenty_three_words)) = 23"
  unfolding words_forty words_twenty_three by code_simp

lemma card_union_forty:
  "card (set (getSignificantWords forty_words) \<union> set (getSignificantWords twenty_three_words)) = 40"
  unfolding words_forty words_twenty_three by code_simp

lemma common_repeated:
  "length (filter (\<lambda>w. w \<in> set (getSignificantWords ''xaa''))
     (getSignificantWords repeated_words)) = 23"
  unfolding words_repeated words_xaa by code_simp

lemma length_repeated: "length (getSignificantWords repeated_words) = 40"
  unfolding words_repeated by simp

text \<open>
  The doubles that JavaScript prints as \<open>0.575\<close> and \<open>57.49999999999999\<close>, and as
  \<open>0.3333333333333333\<close> and \<open>33.33333333333333\<close>.
\<close>

lemma doubles_23_40:
  "js_div 23 40 = 2589569785738035 / 2 ^ 52"
  "js_mul (js_div 23 40) 100 = 8092405580431359 / 2 ^ 47"
  by code_simp+

lemma doubles_1_3:
  "js_div 1 3 = 6004799503160661 / 2 ^ 54"
  "js_mul (js_div 1 3) 100 = 2345624805922133 / 2 ^ 46"
  by code_simp+

lemma percent_23_40: "Math_round (js_mul (js_div 23 40) 100) = 57"
  by code_simp

lemma round_percent_23_40: "round_percent 23 40 = 58"
  by code_simp

lemma halfway_23_40: "halfway 23 40"
  by code_simp

lemma similarity_forty: "calculateSimilarity forty_words twenty_three_words = 57"
  unfolding calculateSimilarity_eq card_inter_forty card_union_forty
  by (simp add: words_forty words_twenty_three percent_23_40)

lemma jaccard_forty: "jaccard_percent forty_words twenty_three_words = 58"
  unfolding jaccard_percent_def Let_def card_inter_forty card_union_forty
  by (rule round_percent_23_40)

lemma similarity_repeated: "calculateSentenceSimilarity repeated_words ''xaa'' = 57"
  unfolding calculateSentenceSimilarity_eq common_repeated length_repeated
  by (simp add: words_repeated words_xaa percent_23_40)

lemma containment_repeated: "containment_percent repeated_words ''xaa'' = 58"
  unfolding containment_percent_def Let_def common_repeated length_repeated
  by (simp add: words_xaa round_percent_23_40)

lemma content_document: "content (document name body) = body"
  and fileName_document: "fileName (document name body) = name"
  unfolding document_def by simp_all

lemma sentences_two:
  "extractSentences two_sentences = [''Original writing counts'', ''Plagiarism detection matters'']"
  by code_simp

lemma sentences_doc1:
  "extractSentences ''Plagiarism detection matters!'' = [''Plagiarism detection matters'']"
  by code_simp

lemma sentences_doc2:
  "extractSentences ''Original writing counts?'' = [''Original writing counts'']"
  by code_simp

lemma words_original:
  "getSignificantWords ''Original writing counts'' = [''original'', ''writing'', ''counts'']"
  by code_simp

lemma words_plagiarism:
  "getSignificantWords ''Plagiarism detection matters'' = [''plagiarism'', ''detection'', ''matters'']"
  by code_simp

lemma percent_0_3: "Math_round (js_mul (js_div 0 3) 100) = 0"
  by code_simp

lemma similarity_sentences:
  "calculateSentenceSimilarity ''Original writing counts'' ''Original writing counts'' = 100"
  "calculateSentenceSimilarity ''Plagiarism detection matters'' ''Plagiarism detection matters'' = 100"
  "calculateSentenceSimilarity ''Original writing counts'' ''Plagiarism detection matters'' = 0"
  "calculateSentenceSimilarity ''Plagiarism detection matters'' ''Original writing counts'' = 0"
proof -
  show "calculateSentenceSimilarity ''Original writing counts'' ''Original writing counts'' = 100"
    by (rule calculateSentenceSimilarity_self) (simp add: words_original)
  show "calculateSentenceSimilarity ''Plagiarism detection matters''
      ''Plagiarism detection matters'' = 100"
    by (rule calculateSentenceSimilarity_self) (simp add: words_plagiarism)
  show "calculateSentenceSimilarity ''Original writing counts''
      ''Plagiarism detection matters'' = 0"
    unfolding calculateSentenceSimilarity_eq words_original words_plagiarism
    by (simp add: percent_0_3)
  show "calculateSentenceSimilarity ''Plagiarism detection matters''
      ''Original writing counts'' = 0"
    unfolding calculateSentenceSimilarity_eq words_original words_plagiarism
    by (simp add: percent_0_3)
qed

lemma candidates_swapped:
  "candidates_by_document two_sentences swapped_corpus = [match_plagiarism, match_original]"
  "candidates_by_sentence two_sentences swapped_corpus = [match_original, match_plagiarism]"
  unfolding candidates_by_document_def candidates_by_sentence_def swapped_corpus_def
    match_of_def match_original_def match_plagiarism_def
  by (simp_all add: content_document fileName_document sentences_two sentences_doc1
      sentences_doc2 similarity_sentences)

lemma matches_swapped:
  "findDetailedMatches two_sentences swapped_corpus = [match_plagiarism, match_original]"
  unfolding findDetailedMatches_def collect_matches_candidates candidates_swapped
  by (simp add: sort_with_def compare_similarity_def match_original_def match_plagiarism_def)

lemma length_long_sentence: "length long_sentence = 250"
  unfolding long_sentence_def by simp

lemma sentences_long:
  "extractSentences (long_sentence @ ''.'') = [long_sentence]"
  "extractSentences (long_sentence @ ''!'') = [long_sentence]"
  by code_simp+

lemma words_long: "getSignificantWords long_sentence \<noteq> []"
  by code_simp

lemma similarity_long: "calculateSentenceSimilarity long_sentence long_sentence = 100"
  using words_long by (rule calculateSentenceSimilarity_self)

lemma matches_long:
  "findDetailedMatches (long_sentence @ ''.'') [document ''doc1'' (long_sentence @ ''!'')] =
     [\<lparr>sentence = take 200 long_sentence @ ''...'', similarity = 100, sourceFile = ''doc1''\<rparr>]"
  unfolding findDetailedMatches_def collect_matches_candidates candidates_by_document_def
    match_of_def
  by (simp add: content_document fileName_document sentences_long similarity_long
      length_long_sentence sort_with_def)

lemma length_twenty_three_words: "length twenty_three_words = 91"
  unfolding twenty_three_words_def by simp

lemma similarity_upload:
  "calculateSimilarity twenty_three_words forty_words = 57"
  "calculateSimilarity twenty_three_words twenty_three_words = 100"
proof -
  show "calculateSimilarity twenty_three_words forty_words = 57"
    unfolding calculateSimilarity_commute [of twenty_three_words] by (rule similarity_forty)
  show "calculateSimilarity twenty_three_words twenty_three_words = 100"
    by (rule calculateSimilarity_self) (simp add: words_twenty_three)
qed

lemma words_stop: "getSignificantWords ''the and of'' = []"
  by code_simp

section \<open>The tokenizer and segmenter\<close>

text \<open>
  Claim C2, as amended. Every word returned by \<open>getSignificantWords\<close> is one of the
  whitespace-separated tokens of the lower-cased text, taken whole (a token with a digit
  or a punctuation character is dropped, never cleaned); it has at least three
  characters, all of them letters \<open>a\<close> to \<open>z\<close>, so none is a digit or a punctuation
  character; and it is no stop word, whatever the case. For the text
  \<open>The Quick fox runs.\<close> the result is \<open>quick\<close>, \<open>fox\<close>: the token \<open>runs.\<close> ends in a
  full stop and is dropped.
\<close>

theorem getSignificantWords_spec:
  "(\<forall>w\<in>set (getSignificantWords text).
      w \<in> set (split_runs isWhiteSpace (toLowerCase text)) \<and> 3 \<le> length w \<and>
      (\<forall>c\<in>set w. isLowerAlpha c \<and> \<not> isDigit c \<and> \<not> isPunctuation c) \<and>
      (\<forall>s\<in>set stopWords. toLowerCase w \<noteq> toLowerCase s)) \<and>
   getSignificantWords ''The Quick fox runs.'' = [''quick'', ''fox'']"
proof (rule conjI)
  show "\<forall>w\<in>set (getSignificantWords text).
      w \<in> set (split_runs isWhiteSpace (toLowerCase text)) \<and> 3 \<le> length w \<and>
      (\<forall>c\<in>set w. isLowerAlpha c \<and> \<not> isDigit c \<and> \<not> isPunctuation c) \<and>
      (\<forall>s\<in>set stopWords. toLowerCase w \<noteq> toLowerCase s)"
  proof
    fix w assume w: "w \<in> set (getSignificantWords text)"
    note p = significant_word_props [OF w]
    have low: "toLowerCase w = w" using p(3) by (rule toLowerCase_lower)
    have "\<forall>s\<in>set stopWords. toLowerCase w \<noteq> toLowerCase s"
    proof
      fix s assume s: "s \<in> set stopWords"
      then have "toLowerCase s = s" by (rule stopWords_lower)
      with low p(4) s show "toLowerCase w \<noteq> toLowerCase s" by auto
    qed
    with p(1,2,3) isLowerAlpha_plain
    show "w \<in> set (split_runs isWhiteSpace (toLowerCase text)) \<and> 3 \<le> length w \<and>
      (\<forall>c\<in>set w. isLowerAlpha c \<and> \<not> isDigit c \<and> \<not> isPunctuation c) \<and>
      (\<forall>s\<in>set stopWords. toLowerCase w \<noteq> toLowerCase s)" by blast
  qed
  show "getSignificantWords ''The Quick fox runs.'' = [''quick'', ''fox'']"
    by code_simp
qed

text \<open>
  Claim C2 as stated gives \<open>quick\<close>, \<open>fox\<close>, \<open>runs\<close> for that text; the code does not
  return it.
\<close>

theorem getSignificantWords_example_counterexample:
  "getSignificantWords ''The Quick fox runs.'' \<noteq> [''quick'', ''fox'', ''runs'']"
  by code_simp

theorem getSignificantWords_spec_witness:
  "getSignificantWords ''THE Quick-1 fox2 Runs runs. it'' = [''runs''] \<and>
   list_all (\<lambda>w. list_all (\<lambda>c. isLowerAlpha c \<and> \<not> isDigit c \<and> \<not> isPunctuation c) w \<and>
       list_all (\<lambda>s. toLowerCase w \<noteq> toLowerCase s) stopWords)
     (getSignificantWords ''THE Quick-1 fox2 Runs runs. it'')"
proof (rule conjI)
  show "getSignificantWords ''THE Quick-1 fox2 Runs runs. it'' = [''runs'']" by code_simp
  show "list_all (\<lambda>w. list_all (\<lambda>c. isLowerAlpha c \<and> \<not> isDigit c \<and> \<not> isPunctuation c) w \<and>
       list_all (\<lambda>s. toLowerCase w \<noteq> toLowerCase s) stopWords)
     (getSignificantWords ''THE Quick-1 fox2 Runs runs. it'')"
    unfolding list_all_iff
    using getSignificantWords_spec [of "''THE Quick-1 fox2 Runs runs. it''"] by blast
qed

text \<open>
  Claim C9. The text is the weave of fragments free of \<open>.\<close>, \<open>!\<close>, \<open>?\<close> with non-empty
  runs of these delimiters, no fragment between two runs is empty (consecutive delimiters
  are one boundary), and \<open>extractSentences\<close> returns, in the order of the text, the
  trimmed fragments of length 15 or more; no returned sentence holds a delimiter.
\<close>

theorem extractSentences_spec:
  "\<exists>frags seps.
     text = weave frags seps \<and> length frags = length seps + 1 \<and>
     (\<forall>d\<in>set seps. d \<noteq> [] \<and> (\<forall>c\<in>set d. isDelimiter c)) \<and>
     (\<forall>f\<in>set frags. \<forall>c\<in>set f. \<not> isDelimiter c) \<and>
     (\<forall>k. 0 < k \<and> k < length seps \<longrightarrow> frags ! k \<noteq> []) \<and>
     extractSentences text = filter (\<lambda>s. 15 \<le> length s) (map trim frags) \<and>
     (\<forall>s\<in>set (extractSentences text). 15 \<le> length s \<and> (\<forall>c\<in>set s. \<not> isDelimiter c))"
proof -
  define frags where "frags = split_runs isDelimiter text"
  from split_runs_weave [of isDelimiter "text"] obtain seps where
    len: "length frags = length seps + 1" and
    seps: "\<forall>d\<in>set seps. d \<noteq> [] \<and> (\<forall>c\<in>set d. isDelimiter c)" and
    w: "text = weave frags seps" unfolding frags_def by blast
  have clean: "\<forall>f\<in>set frags. \<forall>c\<in>set f. \<not> isDelimiter c"
    unfolding frags_def using split_runs_no_sep by blast
  have inner: "\<forall>k. 0 < k \<and> k < length seps \<longrightarrow> frags ! k \<noteq> []"
    using split_runs_inner [of _ isDelimiter "text"] len unfolding frags_def by simp
  have ex: "extractSentences text = filter (\<lambda>s. 15 \<le> length s) (map trim frags)"
    unfolding extractSentences_def MIN_SENTENCE_LENGTH_def frags_def ..
  have out: "\<forall>s\<in>set (extractSentences text). 15 \<le> length s \<and> (\<forall>c\<in>set s. \<not> isDelimiter c)"
  proof
    fix s assume "s \<in> set (extractSentences text)"
    then obtain f where f: "f \<in> set frags" "s = trim f" "15 \<le> length s"
      unfolding ex by auto
    from trim_chars [of f] clean f show "15 \<le> length s \<and> (\<forall>c\<in>set s. \<not> isDelimiter c)" by blast
  qed
  from w len seps clean inner ex out show ?thesis by blast
qed

theorem extractSentences_spec_witness:
  "extractSentences ''Copying is wrong.. ok!  Is this sentence long enough?!'' =
     [''Copying is wrong'', ''Is this sentence long enough''] \<and>
   (\<exists>frags seps.
     ''Copying is wrong.. ok!  Is this sentence long enough?!'' = weave frags seps \<and>
     length frags = length seps + 1 \<and>
     (\<forall>d\<in>set seps. d \<noteq> [] \<and> (\<forall>c\<in>set d. isDelimiter c)) \<and>
     (\<forall>f\<in>set frags. \<forall>c\<in>set f. \<not> isDelimiter c) \<and>
     (\<forall>k. 0 < k \<and> k < length seps \<longrightarrow> frags ! k \<noteq> []) \<and>
     extractSentences ''Copying is wrong.. ok!  Is this sentence long enough?!'' =
       filter (\<lambda>s. 15 \<le> length s) (map trim frags) \<and>
     (\<forall>s\<in>set (extractSentences ''Copying is wrong.. ok!  Is this sentence long enough?!'').
        15 \<le> length s \<and> (\<forall>c\<in>set s. \<not> isDelimiter c)))"
proof (rule conjI)
  show "extractSentences ''Copying is wrong.. ok!  Is this sentence long enough?!'' =
     [''Copying is wrong'', ''Is this sentence long enough'']"
    by code_simp
qed (rule extractSentences_spec)

text \<open>
  Claim C10. \<open>getSignificantWords\<close> never returns more words than \<open>getWordCount\<close>
  counts: lower-casing keeps the whitespace where it is, so both split the text at the
  same places, and every word kept has three characters or more, hence is not empty.
\<close>

theorem significant_words_le_word_count:
  "length (getSignificantWords text) \<le> getWordCount text"
proof -
  let ?toks = "split_runs isWhiteSpace text"
  have "split_runs isWhiteSpace (toLowerCase text) = map (map toLowerChar) ?toks"
    unfolding toLowerCase_def by (rule split_runs_map) (rule isWhiteSpace_toLowerChar)
  then have "length (getSignificantWords text) =
      length (filter ((\<lambda>word. MIN_WORD_LENGTH \<le> length word \<and> \<not> isStopWord word \<and> test_alpha word) \<circ> map toLowerChar) ?toks)"
    unfolding getSignificantWords_def by (simp add: filter_map)
  also have "\<dots> \<le> length (filter (\<lambda>word. 0 < length word) ?toks)"
    unfolding length_filter_conv_card
    by (rule card_mono) (auto simp: MIN_WORD_LENGTH_def)
  finally show ?thesis unfolding getWordCount_def .
qed

theorem significant_words_le_word_count_witness:
  "length (getSignificantWords ''The Quick fox runs.'') \<le> getWordCount ''The Quick fox runs.'' \<and>
   length (getSignificantWords ''The Quick fox runs.'') = 2 \<and>
   getWordCount ''The Quick fox runs.'' = 4"
proof (intro conjI)
  show "length (getSignificantWords ''The Quick fox runs.'') \<le> getWordCount ''The Quick fox runs.''"
    by (rule significant_words_le_word_count)
  show "length (getSignificantWords ''The Quick fox runs.'') = 2" by code_simp
  show "getWordCount ''The Quick fox runs.'' = 4" by code_simp
qed

section \<open>The similarity engine\<close>

text \<open>
  Claim C4, as amended. For texts whose lists of significant words have fewer than
  \<open>2^32\<close> entries (the bound on the length of a JavaScript array), \<open>calculateSimilarity\<close>
  returns 0 when either list is empty. Otherwise it returns
  \<open>round(100 * |A \<inter> B| / |A \<union> B|)\<close> over the sets of significant words, except that
  where \<open>100 * |A \<inter> B| / |A \<union> B|\<close> lies exactly halfway between two integers it
  returns one of the two, possibly the lower one: the quotient is rounded to a double
  before it is multiplied by 100, and the product can fall just below the half.
\<close>

theorem calculateSimilarity_spec:
  assumes "length (getSignificantWords A) < 2 ^ 32" and "length (getSignificantWords B) < 2 ^ 32"
  shows "(getSignificantWords A = [] \<or> getSignificantWords B = [] \<longrightarrow>
            calculateSimilarity A B = 0) \<and>
         (getSignificantWords A \<noteq> [] \<and> getSignificantWords B \<noteq> [] \<longrightarrow>
            calculateSimilarity A B = jaccard_percent A B \<or>
            (calculateSimilarity A B = jaccard_percent A B - 1 \<and>
             halfway (card (set (getSignificantWords A) \<inter> set (getSignificantWords B)))
                     (card (set (getSignificantWords A) \<union> set (getSignificantWords B)))))"
proof (cases "getSignificantWords A = [] \<or> getSignificantWords B = []")
  case True
  then show ?thesis unfolding calculateSimilarity_eq by auto
next
  case False
  then have ne: "getSignificantWords A \<noteq> []" by simp
  note j = jaccard_sizes [where ys = "getSignificantWords B", OF ne]
  from j(3) assms have "card (set (getSignificantWords A) \<union> set (getSignificantWords B)) < 2 ^ 44"
    by simp
  from percent_near [OF j(1,2) this] False show ?thesis
    unfolding calculateSimilarity_eq jaccard_percent_def Let_def by simp
qed

text \<open>
  Claim C4 as stated fails for a text of 40 distinct words against its first 23 words:
  \<open>100 * 23 / 40 = 57.5\<close> rounds to 58, and the code returns 57, since the double nearest
  to \<open>23 / 40\<close> times 100 is the double \<open>57.49999999999999\<close>.
\<close>

theorem calculateSimilarity_counterexample:
  "calculateSimilarity forty_words twenty_three_words \<noteq>
   jaccard_percent forty_words twenty_three_words"
  unfolding similarity_forty jaccard_forty by simp

theorem calculateSimilarity_spec_witness:
  "getSignificantWords forty_words \<noteq> [] \<and> getSignificantWords twenty_three_words \<noteq> [] \<and>
   length (getSignificantWords forty_words) < 2 ^ 32 \<and>
   length (getSignificantWords twenty_three_words) < 2 ^ 32 \<and>
   calculateSimilarity forty_words twenty_three_words =
     jaccard_percent forty_words twenty_three_words - 1 \<and>
   halfway (card (set (getSignificantWords forty_words) \<inter>
                  set (getSignificantWords twenty_three_words)))
           (card (set (getSignificantWords forty_words) \<union>
                  set (getSignificantWords twenty_three_words)))"
proof -
  have l: "length (getSignificantWords forty_words) < 2 ^ 32"
    "length (getSignificantWords twenty_three_words) < 2 ^ 32"
    unfolding words_forty words_twenty_three by simp_all
  have n: "getSignificantWords forty_words \<noteq> []" "getSignificantWords twenty_three_words \<noteq> []"
    unfolding words_forty words_twenty_three by simp_all
  from calculateSimilarity_spec [OF l] n show ?thesis
    using l unfolding similarity_forty jaccard_forty by simp
qed

text \<open>
  Claim C7. \<open>calculateSimilarity\<close> is symmetric, and a text with at least one significant
  word has similarity 100 with itself.
\<close>

theorem calculateSimilarity_symmetric:
  "calculateSimilarity A B = calculateSimilarity B A \<and>
   (getSignificantWords A \<noteq> [] \<longrightarrow> calculateSimilarity A A = 100)"
  using calculateSimilarity_commute [of A B] calculateSimilarity_self [of A] by blast

theorem calculateSimilarity_symmetric_witness:
  "calculateSimilarity forty_words twenty_three_words =
     calculateSimilarity twenty_three_words forty_words \<and>
   calculateSimilarity twenty_three_words forty_words = 57 \<and>
   getSignificantWords twenty_three_words \<noteq> [] \<and>
   calculateSimilarity twenty_three_words twenty_three_words = 100"
proof -
  have n: "getSignificantWords twenty_three_words \<noteq> []"
    unfolding words_twenty_three by simp
  from calculateSimilarity_symmetric [of forty_words twenty_three_words]
    calculateSimilarity_symmetric [of twenty_three_words twenty_three_words] n
  show ?thesis unfolding similarity_forty by simp
qed

text \<open>
  Claim C3, as amended. For sentences whose lists of significant words have fewer than
  \<open>2^32\<close> entries, \<open>calculateSentenceSimilarity\<close> returns 0 when either list is empty.
  Otherwise, with \<open>c\<close> the number of significant words of the first sentence, counted
  with multiplicity, that occur among those of the second, and \<open>n\<close> the larger of the
  two word counts, it returns \<open>round(100 * c / n)\<close>, except that where \<open>100 * c / n\<close>
  lies exactly halfway between two integers it returns one of the two, possibly the lower
  one.
\<close>

theorem calculateSentenceSimilarity_spec:
  assumes "length (getSignificantWords A) < 2 ^ 32" and "length (getSignificantWords B) < 2 ^ 32"
  shows "(getSignificantWords A = [] \<or> getSignificantWords B = [] \<longrightarrow>
            calculateSentenceSimilarity A B = 0) \<and>
         (getSignificantWords A \<noteq> [] \<and> getSignificantWords B \<noteq> [] \<longrightarrow>
            calculateSentenceSimilarity A B = containment_percent A B \<or>
            (calculateSentenceSimilarity A B = containment_percent A B - 1 \<and>
             halfway (length (filter (\<lambda>w. w \<in> set (getSignificantWords B)) (getSignificantWords A)))
                     (max (length (getSignificantWords A)) (length (getSignificantWords B)))))"
proof (cases "getSignificantWords A = [] \<or> getSignificantWords B = []")
  case True
  then show ?thesis unfolding calculateSentenceSimilarity_eq by auto
next
  case False
  then have ne: "getSignificantWords A \<noteq> []" by simp
  note c = containment_sizes(1) [where ys = "getSignificantWords B", OF ne]
    containment_sizes(2) [where ys = "getSignificantWords B"
      and P = "\<lambda>w. w \<in> set (getSignificantWords B)", OF ne]
  from assms have "max (length (getSignificantWords A)) (length (getSignificantWords B)) < 2 ^ 44"
    by simp
  from percent_near [OF c this] False show ?thesis
    unfolding calculateSentenceSimilarity_eq containment_percent_def Let_def by simp
qed

text \<open>
  Claim C3 as stated fails for a sentence of 40 words, 23 of them the one word of the
  other sentence: \<open>100 * 23 / 40 = 57.5\<close> rounds to 58, and the code returns 57.
\<close>

theorem calculateSentenceSimilarity_counterexample:
  "calculateSentenceSimilarity repeated_words ''xaa'' \<noteq> containment_percent repeated_words ''xaa''"
  unfolding similarity_repeated containment_repeated by simp

theorem calculateSentenceSimilarity_spec_witness:
  "getSignificantWords repeated_words \<noteq> [] \<and> getSignificantWords ''xaa'' \<noteq> [] \<and>
   length (getSignificantWords repeated_words) < 2 ^ 32 \<and>
   length (getSignificantWords ''xaa'') < 2 ^ 32 \<and>
   calculateSentenceSimilarity repeated_words ''xaa'' = containment_percent repeated_words ''xaa'' - 1 \<and>
   halfway (length (filter (\<lambda>w. w \<in> set (getSignificantWords ''xaa''))
              (getSignificantWords repeated_words)))
           (max (length (getSignificantWords repeated_words))
              (length (getSignificantWords ''xaa'')))"
proof -
  have l: "length (getSignificantWords repeated_words) < 2 ^ 32"
    "length (getSignificantWords ''xaa'') < 2 ^ 32"
    unfolding length_repeated words_xaa by simp_all
  have n: "getSignificantWords repeated_words \<noteq> []" "getSignificantWords ''xaa'' \<noteq> []"
    unfolding words_repeated words_xaa by simp_all
  from calculateSentenceSimilarity_spec [OF l] n show ?thesis
    using l unfolding similarity_repeated containment_repeated by simp
qed

text \<open>
  Claim C8. \<open>calculateSimilarity\<close> and \<open>calculateSentenceSimilarity\<close> return an integer
  from 0 to 100, and both return 0 when either input has no significant word.
\<close>

theorem similarity_range:
  "0 \<le> calculateSimilarity A B \<and> calculateSimilarity A B \<le> 100 \<and>
   0 \<le> calculateSentenceSimilarity A B \<and> calculateSentenceSimilarity A B \<le> 100 \<and>
   (getSignificantWords A = [] \<or> getSignificantWords B = [] \<longrightarrow>
      calculateSimilarity A B = 0 \<and> calculateSentenceSimilarity A B = 0)"
proof (cases "getSignificantWords A = [] \<or> getSignificantWords B = []")
  case True
  then show ?thesis
    unfolding calculateSimilarity_eq calculateSentenceSimilarity_eq by auto
next
  case False
  then have ne: "getSignificantWords A \<noteq> []" by simp
  note j = jaccard_sizes(1,2) [where ys = "getSignificantWords B", OF ne]
  note c = containment_sizes(1) [where ys = "getSignificantWords B", OF ne]
    containment_sizes(2) [where ys = "getSignificantWords B"
      and P = "\<lambda>w. w \<in> set (getSignificantWords B)", OF ne]
  from False percent_range [OF j] percent_range [OF c] show ?thesis
    unfolding calculateSimilarity_eq calculateSentenceSimilarity_eq by simp
qed

theorem similarity_range_witness:
  "0 \<le> calculateSimilarity forty_words twenty_three_words \<and>
   calculateSimilarity forty_words twenty_three_words \<le> 100 \<and>
   0 \<le> calculateSentenceSimilarity repeated_words ''xaa'' \<and>
   calculateSentenceSimilarity repeated_words ''xaa'' \<le> 100 \<and>
   getSignificantWords ''the and of'' = [] \<and>
   calculateSimilarity ''the and of'' forty_words = 0 \<and>
   calculateSentenceSimilarity ''the and of'' forty_words = 0 \<and>
   calculateSimilarity forty_words ''the and of'' = 0 \<and>
   calculateSentenceSimilarity forty_words ''the and of'' = 0"
  using similarity_range [of forty_words twenty_three_words]
    similarity_range [of repeated_words "''xaa''"]
    similarity_range [of "''the and of''" forty_words]
    similarity_range [of forty_words "''the and of''"] words_stop
  by simp

section \<open>The detailed matches\<close>

text \<open>
  Claim C5. The loops of \<open>findDetailedMatches\<close> keep an entry for a sentence of the new
  text and a sentence of an earlier document if and only if their similarity is at
  least 75. The entry carries that similarity, computed on the two full sentences, the
  file name of the earlier document, and the sentence of the new text: whole when it has
  at most 200 characters, and otherwise its first 200 characters followed by the marker
  \<open>...\<close>. Every entry that \<open>findDetailedMatches\<close> returns is one of the entries kept.
\<close>

theorem findDetailedMatches_entries:
  "(\<forall>m. m \<in> set (collect_matches text corpus) \<longleftrightarrow>
      (\<exists>result\<in>set corpus. \<exists>sent\<in>set (extractSentences text).
         \<exists>existing\<in>set (extractSentences (content result)).
           75 \<le> calculateSentenceSimilarity sent existing \<and>
           m = \<lparr>sentence = (if 200 < length sent then take 200 sent @ ''...'' else sent),
                similarity = calculateSentenceSimilarity sent existing,
                sourceFile = fileName result\<rparr>)) \<and>
   set (findDetailedMatches text corpus) \<subseteq> set (collect_matches text corpus)"
proof (rule conjI)
  show "\<forall>m. m \<in> set (collect_matches text corpus) \<longleftrightarrow>
      (\<exists>result\<in>set corpus. \<exists>sent\<in>set (extractSentences text).
         \<exists>existing\<in>set (extractSentences (content result)).
           75 \<le> calculateSentenceSimilarity sent existing \<and>
           m = \<lparr>sentence = (if 200 < length sent then take 200 sent @ ''...'' else sent),
                similarity = calculateSentenceSimilarity sent existing,
                sourceFile = fileName result\<rparr>)"
    unfolding collect_matches_candidates candidates_by_document_def
    by (simp add: match_of_iff)
  have "set (findDetailedMatches text corpus) \<subseteq>
      set (sort_with compare_similarity (collect_matches text corpus))"
    unfolding findDetailedMatches_def by (rule set_take_subset)
  then show "set (findDetailedMatches text corpus) \<subseteq> set (collect_matches text corpus)"
    unfolding sort_with_set .
qed

theorem findDetailedMatches_entries_witness:
  "length long_sentence = 250 \<and>
   long_sentence \<in> set (extractSentences (long_sentence @ ''.'')) \<and>
   calculateSentenceSimilarity long_sentence long_sentence = 100 \<and>
   \<lparr>sentence = take 200 long_sentence @ ''...'', similarity = 100, sourceFile = ''doc1''\<rparr>
     \<in> set (collect_matches (long_sentence @ ''.'') [document ''doc1'' (long_sentence @ ''!'')]) \<and>
   findDetailedMatches (long_sentence @ ''.'') [document ''doc1'' (long_sentence @ ''!'')] =
     [\<lparr>sentence = take 200 long_sentence @ ''...'', similarity = 100, sourceFile = ''doc1''\<rparr>]"
proof -
  have "\<lparr>sentence = take 200 long_sentence @ ''...'', similarity = 100, sourceFile = ''doc1''\<rparr>
     \<in> set (findDetailedMatches (long_sentence @ ''.'')
          [document ''doc1'' (long_sentence @ ''!'')])"
    unfolding matches_long by simp
  with findDetailedMatches_entries [of "long_sentence @ ''.''"
      "[document ''doc1'' (long_sentence @ ''!'')]"]
  have "\<lparr>sentence = take 200 long_sentence @ ''...'', similarity = 100, sourceFile = ''doc1''\<rparr>
     \<in> set (collect_matches (long_sentence @ ''.'') [document ''doc1'' (long_sentence @ ''!'')])"
    by blast
  then show ?thesis
    using length_long_sentence similarity_long matches_long by (simp add: sentences_long)
qed

text \<open>
  Claim C1, as amended. \<open>findDetailedMatches\<close> returns at most 5 entries, sorted by
  similarity non-increasing: they are the first five of the ranking of the candidates
  that is sorted by similarity and keeps candidates of equal similarity in their order of
  encounter. That order is the order of the corpus first, then the order of the new
  document's sentences, then the order of the earlier document's sentences.
\<close>

theorem findDetailedMatches_ranked:
  "length (findDetailedMatches text corpus) \<le> 5 \<and>
   sorted_wrt (\<lambda>a b. MatchedSentence.similarity b \<le> MatchedSentence.similarity a)
     (findDetailedMatches text corpus) \<and>
   (\<exists>ranked.
      findDetailedMatches text corpus = take 5 ranked \<and>
      sorted_wrt (\<lambda>a b. MatchedSentence.similarity b \<le> MatchedSentence.similarity a) ranked \<and>
      (\<forall>k. filter (\<lambda>m. MatchedSentence.similarity m = k) ranked =
           filter (\<lambda>m. MatchedSentence.similarity m = k) (candidates_by_document text corpus)))"
proof -
  define ranked where "ranked = sort_with compare_similarity (candidates_by_document text corpus)"
  have f: "findDetailedMatches text corpus = take 5 ranked"
    unfolding findDetailedMatches_def ranked_def collect_matches_candidates ..
  have s: "sorted_wrt (\<lambda>a b. MatchedSentence.similarity b \<le> MatchedSentence.similarity a) ranked"
    unfolding ranked_def by (rule sort_with_sorted)
  have st: "\<forall>k. filter (\<lambda>m. MatchedSentence.similarity m = k) ranked =
           filter (\<lambda>m. MatchedSentence.similarity m = k) (candidates_by_document text corpus)"
    unfolding ranked_def by (simp add: sort_with_stable)
  have "length (findDetailedMatches text corpus) \<le> 5" unfolding f by simp
  moreover have "sorted_wrt (\<lambda>a b. MatchedSentence.similarity b \<le> MatchedSentence.similarity a)
     (findDetailedMatches text corpus)"
    unfolding f using s by (rule sorted_wrt_take)
  ultimately show ?thesis using f s st by blast
qed

text \<open>
  Claim C1 as stated puts the order of the new document's sentences first. For a text
  of two sentences and a corpus whose first document holds the second sentence and whose
  second document holds the first, both entries have similarity 100, and the code returns
  the entry of the first document before the entry of the first sentence.
\<close>

theorem findDetailedMatches_order_counterexample:
  "\<not> (\<exists>ranked.
      findDetailedMatches two_sentences swapped_corpus = take 5 ranked \<and>
      sorted_wrt (\<lambda>a b. MatchedSentence.similarity b \<le> MatchedSentence.similarity a) ranked \<and>
      (\<forall>k. filter (\<lambda>m. MatchedSentence.similarity m = k) ranked =
           filter (\<lambda>m. MatchedSentence.similarity m = k)
             (candidates_by_sentence two_sentences swapped_corpus)))"
proof
  assume "\<exists>ranked.
      findDetailedMatches two_sentences swapped_corpus = take 5 ranked \<and>
      sorted_wrt (\<lambda>a b. MatchedSentence.similarity b \<le> MatchedSentence.similarity a) ranked \<and>
      (\<forall>k. filter (\<lambda>m. MatchedSentence.similarity m = k) ranked =
           filter (\<lambda>m. MatchedSentence.similarity m = k)
             (candidates_by_sentence two_sentences swapped_corpus))"
  then obtain ranked where t: "take 5 ranked = [match_plagiarism, match_original]"
    and st: "filter (\<lambda>m. MatchedSentence.similarity m = 100) ranked =
       filter (\<lambda>m. MatchedSentence.similarity m = 100) [match_original, match_plagiarism]"
    unfolding matches_swapped candidates_swapped by metis
  from t have "length (take 5 ranked) = 2" by simp
  then have "length ranked = 2" by (simp add: min_def split: if_splits)
  with t have "ranked = [match_plagiarism, match_original]" by simp
  with st show False by (simp add: match_original_def match_plagiarism_def)
qed

theorem findDetailedMatches_ranked_witness:
  "findDetailedMatches two_sentences swapped_corpus = [match_plagiarism, match_original] \<and>
   candidates_by_document two_sentences swapped_corpus = [match_plagiarism, match_original] \<and>
   length (findDetailedMatches two_sentences swapped_corpus) \<le> 5 \<and>
   sorted_wrt (\<lambda>a b. MatchedSentence.similarity b \<le> MatchedSentence.similarity a)
     (findDetailedMatches two_sentences swapped_corpus)"
  using findDetailedMatches_ranked [of two_sentences swapped_corpus]
    matches_swapped candidates_swapped(1) by simp

section \<open>The similarity of a new submission\<close>

text \<open>
  Claim C6. When \<open>handleFileUpload\<close> stores a new result, its content is the extracted
  text and its similarity is 0 when there is no earlier result; otherwise it is the
  greatest value of \<open>calculateSimilarity\<close> of the new content with the content of an
  earlier result.
\<close>

theorem handleFileUpload_similarity:
  assumes "handleFileUpload name type extracted now_id now results = Inr rs"
  shows "\<exists>newResult. rs = newResult # results \<and>
      extracted = Inr (content newResult, pageCount newResult) \<and>
      (results = [] \<longrightarrow> similarity newResult = 0) \<and>
      (results \<noteq> [] \<longrightarrow>
         (\<exists>r\<in>set results.
            similarity newResult = calculateSimilarity (content newResult) (content r)) \<and>
         (\<forall>r\<in>set results.
            calculateSimilarity (content newResult) (content r) \<le> similarity newResult))"
proof -
  from assms obtain body pages where ex: "extracted = Inr (body, pages)"
    unfolding handleFileUpload_def by (auto split: if_splits sum.splits)
  define sim where "sim = (if 0 < length results
      then Max (set (map (\<lambda>result. calculateSimilarity body (content result)) results)) else 0)"
  define newResult where "newResult = \<lparr>id' = now_id, fileName = name, fileType = type,
      content = body, similarity = sim, matches = findDetailedMatches body results,
      timestamp = now, wordCount = getWordCount body, pageCount = pages\<rparr>"
  from assms have rs: "rs = newResult # results"
    unfolding handleFileUpload_def ex newResult_def sim_def
    by (simp add: Let_def split: if_splits)
  have c: "content newResult = body" and s: "similarity newResult = sim"
    and p: "pageCount newResult = pages"
    unfolding newResult_def by simp_all
  have x: "extracted = Inr (content newResult, pageCount newResult)" unfolding ex c p ..
  have e: "results = [] \<longrightarrow> similarity newResult = 0" unfolding s sim_def by simp
  have n: "results \<noteq> [] \<longrightarrow>
         (\<exists>r\<in>set results.
            similarity newResult = calculateSimilarity (content newResult) (content r)) \<and>
         (\<forall>r\<in>set results.
            calculateSimilarity (content newResult) (content r) \<le> similarity newResult)"
  proof
    assume ne: "results \<noteq> []"
    let ?S = "(\<lambda>result. calculateSimilarity body (content result)) ` set results"
    have fin: "finite ?S" and nemp: "?S \<noteq> {}" using ne by simp_all
    from ne have sim: "sim = Max ?S" unfolding sim_def by simp
    from Max_in [OF fin nemp] have "\<exists>r\<in>set results. sim = calculateSimilarity body (content r)"
      unfolding sim by auto
    moreover have "\<forall>r\<in>set results. calculateSimilarity body (content r) \<le> sim"
      unfolding sim using fin by (auto intro: Max_ge)
    ultimately show "(\<exists>r\<in>set results.
            similarity newResult = calculateSimilarity (content newResult) (content r)) \<and>
         (\<forall>r\<in>set results.
            calculateSimilarity (content newResult) (content r) \<le> similarity newResult)"
      unfolding c s by blast
  qed
  from rs x e n show ?thesis by blast
qed

theorem handleFileUpload_similarity_witness:
  "\<exists>newResult.
     handleFileUpload ''new.txt'' ''text/plain'' (Inr (twenty_three_words, None)) ''1'' 1
       [document ''a'' forty_words, document ''b'' twenty_three_words] =
       Inr [newResult, document ''a'' forty_words, document ''b'' twenty_three_words] \<and>
     content newResult = twenty_three_words \<and>
     calculateSimilarity twenty_three_words forty_words = 57 \<and>
     calculateSimilarity twenty_three_words twenty_three_words = 100 \<and>
     similarity newResult = 100"
proof -
  obtain rs where rs: "handleFileUpload ''new.txt'' ''text/plain''
      (Inr (twenty_three_words, None)) ''1'' 1
      [document ''a'' forty_words, document ''b'' twenty_three_words] = Inr rs"
    unfolding handleFileUpload_def by (simp add: length_twenty_three_words Let_def)
  from handleFileUpload_similarity [OF rs] obtain newResult where
    n: "rs = [newResult, document ''a'' forty_words, document ''b'' twenty_three_words]"
    and c: "content newResult = twenty_three_words"
    and ex: "\<exists>r\<in>set [document ''a'' forty_words, document ''b'' twenty_three_words].
        similarity newResult = calculateSimilarity (content newResult) (content r)"
    and ge: "\<forall>r\<in>set [document ''a'' forty_words, document ''b'' twenty_three_words].
        calculateSimilarity (content newResult) (content r) \<le> similarity newResult"
    by auto
  from ex have "similarity newResult = 57 \<or> similarity newResult = 100"
    unfolding c by (simp add: content_document similarity_upload)
  moreover from ge have "100 \<le> similarity newResult"
    unfolding c by (simp add: content_document similarity_upload)
  ultimately have "similarity newResult = 100" by linarith
  with rs n c similarity_upload show ?thesis by blast
qed

end
